theory Spec2Isabelle
  imports Complex_Main "HOL-Library.Word" "HOL-Library.Signed_Division"
begin

unbundle bit_operations_syntax

section \<open>The MMRP dissector of epan/dissectors/packet-mrp-mmrp.c\<close>

text \<open>
  The dissector walks one frame payload (a \<open>tvbuff_t\<close>) with three nested loops: Messages,
  the Vector Attributes of a Message, and the three-packed events of a Vector Attribute.
  The payload is a list of bytes. What the dissector does to the protocol tree is the list
  of the calls it makes on it, in order; an exception thrown by a read, or by adding a
  field whose bytes are not in the payload, ends the dissection with the items added so
  far, and with the exception as the result.

  The cursors \<open>msg_offset\<close>, \<open>vect_offset\<close> (C \<open>int\<close>) and \<open>offset\<close> (\<open>guint\<close>) are natural
  numbers here: they start at 0, only grow, and every step of a cursor follows a read that
  succeeded at it, so they stay within the payload length plus one Vector Attribute
  (at most 2988 bytes), far from the 32-bit limits for any frame. The one computation the
  source does on narrow operands, \<open>vect_attr_len\<close>, is modelled with the 32-bit wrap-around
  written out.
\<close>

subsection \<open>The payload and its reads\<close>

type_synonym tvbuff = "8 word list"

text \<open>
  Modelled from the spec: the error kinds of section 7. The reads of epan/tvbuff.c
  (\<open>tvb_get_guint8\<close>, \<open>tvb_get_ntohs\<close>) are not under src/; there, a read past the end of the
  buffer throws, which the spec calls \<open>Truncated\<close>. The other two kinds are named by the
  spec; nothing in the source produces them.
\<close>

datatype error = Truncated | MalformedPackedByte | UnknownAttributeType

text \<open>
  Modelled from the spec: \<open>tvb_get_guint8\<close> (epan/tvbuff.c, not under src/). "Any peek or
  read that would run past the buffer end fails with a Truncated error"; otherwise the
  byte at the offset.
\<close>

definition tvb_get_guint8 :: "tvbuff \<Rightarrow> nat \<Rightarrow> error + 8 word" where
  "tvb_get_guint8 tvb offset =
     (if offset < length tvb then Inr (tvb ! offset) else Inl Truncated)"

text \<open>
  Modelled from the spec: \<open>tvb_get_ntohs\<close> (epan/tvbuff.c, not under src/): the two bytes at
  the offset as a big-endian 16-bit value, \<open>Truncated\<close> when they are not both in the buffer.
\<close>

definition tvb_get_ntohs :: "tvbuff \<Rightarrow> nat \<Rightarrow> error + 16 word" where
  "tvb_get_ntohs tvb offset =
     (if offset + 2 \<le> length tvb
      then Inr (push_bit 8 (ucast (tvb ! offset)) OR ucast (tvb ! (offset + 1)))
      else Inl Truncated)"

text \<open>Modelled from the spec: \<open>tvb_captured_length\<close> (epan/tvbuff.c), the number of bytes.\<close>

definition tvb_captured_length :: "tvbuff \<Rightarrow> nat" where
  "tvb_captured_length tvb = length tvb"

subsection \<open>Constants of the source\<close>

definition MMRP_END_MARK :: "16 word" where
  "MMRP_END_MARK = 0x0000"

definition MMRP_PROTOCOL_VERSION_OFFSET :: nat where
  "MMRP_PROTOCOL_VERSION_OFFSET = 0"

definition MMRP_MESSAGE_GROUP_OFFSET :: nat where
  "MMRP_MESSAGE_GROUP_OFFSET = MMRP_PROTOCOL_VERSION_OFFSET + 1"

definition MMRP_ATTRIBUTE_TYPE_OFFSET :: nat where
  "MMRP_ATTRIBUTE_TYPE_OFFSET = MMRP_MESSAGE_GROUP_OFFSET"

definition MMRP_ATTRIBUTE_LENGTH_OFFSET :: nat where
  "MMRP_ATTRIBUTE_LENGTH_OFFSET = MMRP_ATTRIBUTE_TYPE_OFFSET + 1"

definition MMRP_ATTRIBUTE_LIST_GROUP_OFFSET :: nat where
  "MMRP_ATTRIBUTE_LIST_GROUP_OFFSET = MMRP_ATTRIBUTE_LENGTH_OFFSET + 1"

definition MMRP_VECTOR_ATTRIBUTE_GROUP_OFFSET :: nat where
  "MMRP_VECTOR_ATTRIBUTE_GROUP_OFFSET = MMRP_ATTRIBUTE_LIST_GROUP_OFFSET"

definition MMRP_VECTOR_HEADER_OFFSET :: nat where
  "MMRP_VECTOR_HEADER_OFFSET = MMRP_VECTOR_ATTRIBUTE_GROUP_OFFSET"

definition MMRP_LEAVE_ALL_EVENT_OFFSET :: nat where
  "MMRP_LEAVE_ALL_EVENT_OFFSET = MMRP_VECTOR_HEADER_OFFSET"

definition MMRP_LEAVE_ALL_EVENT_MASK :: "16 word" where
  "MMRP_LEAVE_ALL_EVENT_MASK = 0xE000"

definition MMRP_NUMBER_OF_VALUES_OFFSET :: nat where
  "MMRP_NUMBER_OF_VALUES_OFFSET = MMRP_VECTOR_HEADER_OFFSET"

definition MMRP_NUMBER_OF_VALUES_MASK :: "16 word" where
  "MMRP_NUMBER_OF_VALUES_MASK = 0x1fff"

definition MMRP_FIRST_VALUE_GROUP_OFFSET :: nat where
  "MMRP_FIRST_VALUE_GROUP_OFFSET = MMRP_VECTOR_HEADER_OFFSET + 2"

definition MMRP_SERVICE_THREE_PACKED_OFFSET :: nat where
  "MMRP_SERVICE_THREE_PACKED_OFFSET = MMRP_FIRST_VALUE_GROUP_OFFSET + 1"

definition MMRP_MAC_THREE_PACKED_OFFSET :: nat where
  "MMRP_MAC_THREE_PACKED_OFFSET = MMRP_FIRST_VALUE_GROUP_OFFSET + 6"

definition MMRP_ATTRIBUTE_TYPE_SERVICE :: "8 word" where
  "MMRP_ATTRIBUTE_TYPE_SERVICE = 0x01"

definition MMRP_ATTRIBUTE_TYPE_MAC :: "8 word" where
  "MMRP_ATTRIBUTE_TYPE_MAC = 0x02"

definition attribute_type_vals :: "(nat \<times> string) list" where
  "attribute_type_vals =
     [(unat MMRP_ATTRIBUTE_TYPE_SERVICE, ''Service Requirement''),
      (unat MMRP_ATTRIBUTE_TYPE_MAC, ''MAC'')]"

definition three_packed_vals :: "(nat \<times> string) list" where
  "three_packed_vals =
     [(0, ''New''), (1, ''JoinIn''), (2, ''In''), (3, ''JoinMt''), (4, ''Mt''), (5, ''Lv'')]"

lemmas mmrp_offsets =
  MMRP_PROTOCOL_VERSION_OFFSET_def MMRP_MESSAGE_GROUP_OFFSET_def
  MMRP_ATTRIBUTE_TYPE_OFFSET_def MMRP_ATTRIBUTE_LENGTH_OFFSET_def
  MMRP_ATTRIBUTE_LIST_GROUP_OFFSET_def MMRP_VECTOR_ATTRIBUTE_GROUP_OFFSET_def
  MMRP_VECTOR_HEADER_OFFSET_def MMRP_LEAVE_ALL_EVENT_OFFSET_def
  MMRP_NUMBER_OF_VALUES_OFFSET_def MMRP_FIRST_VALUE_GROUP_OFFSET_def
  MMRP_SERVICE_THREE_PACKED_OFFSET_def MMRP_MAC_THREE_PACKED_OFFSET_def

subsection \<open>The protocol tree as the list of calls made on it\<close>

datatype proto_tree =
  tree | mmrp_tree | msg_tree | attr_list_tree | vect_attr_tree | vector_header_tree
  | first_value_tree

datatype hf =
  proto_mmrp | hf_mmrp_proto_id | hf_mmrp_message | hf_mmrp_attribute_type
  | hf_mmrp_attribute_length | hf_mmrp_attribute_list | hf_mmrp_vector_attribute
  | hf_mmrp_vector_header | hf_mmrp_leave_all_event | hf_mmrp_number_of_values
  | hf_mmrp_first_value | hf_mmrp_mac | hf_mmrp_ser_req | hf_mmrp_three_packed_event
  | hf_mmrp_end_mark

datatype column = COL_PROTOCOL | COL_INFO

text \<open>
  The type column of the \<open>hf\<close> array in \<open>proto_register_mrp_mmrp\<close>; the protocol item
  itself is of type \<open>FT_PROTOCOL\<close>.
\<close>

datatype ftenum = FT_PROTOCOL | FT_NONE | FT_UINT8 | FT_UINT16 | FT_ETHER

fun hf_type :: "hf \<Rightarrow> ftenum" where
  "hf_type proto_mmrp = FT_PROTOCOL"
| "hf_type hf_mmrp_proto_id = FT_UINT8"
| "hf_type hf_mmrp_message = FT_NONE"
| "hf_type hf_mmrp_attribute_type = FT_UINT8"
| "hf_type hf_mmrp_attribute_length = FT_UINT8"
| "hf_type hf_mmrp_attribute_list = FT_NONE"
| "hf_type hf_mmrp_vector_attribute = FT_NONE"
| "hf_type hf_mmrp_vector_header = FT_UINT16"
| "hf_type hf_mmrp_leave_all_event = FT_UINT16"
| "hf_type hf_mmrp_number_of_values = FT_UINT16"
| "hf_type hf_mmrp_first_value = FT_NONE"
| "hf_type hf_mmrp_mac = FT_ETHER"
| "hf_type hf_mmrp_ser_req = FT_UINT8"
| "hf_type hf_mmrp_three_packed_event = FT_UINT8"
| "hf_type hf_mmrp_end_mark = FT_UINT16"

text \<open>
  \<open>Item t f start len\<close> is \<open>proto_tree_add_item(t, f, tvb, start, len, _)\<close> (a length of -1
  is "to the end of the buffer"), \<open>Uint t f start len v\<close> is \<open>proto_tree_add_uint\<close> with the
  value \<open>v\<close>, \<open>AppendText t label v\<close> is \<open>proto_item_append_text(t, ": %s (%d)", label, v)\<close>
  and \<open>ColSetStr c s\<close> is \<open>col_set_str(pinfo->cinfo, c, s)\<close>.
\<close>

datatype item =
  Item proto_tree hf nat int
  | Uint proto_tree hf nat nat nat
  | AppendText proto_tree string nat
  | ColSetStr column string

text \<open>
  A step of the dissection gives the items it added and either the exception that ended it
  or its value.
\<close>

type_synonym 'a dissect = "item list \<times> (error + 'a)"

definition returns :: "'a \<Rightarrow> 'a dissect" where
  "returns x = ([], Inr x)"

definition reads :: "error + 'a \<Rightarrow> 'a dissect" where
  "reads r = ([], r)"

definition and_then :: "'a dissect \<Rightarrow> ('a \<Rightarrow> 'b dissect) \<Rightarrow> 'b dissect" where
  "and_then m f =
     (case m of
        (items, Inl e) \<Rightarrow> (items, Inl e)
      | (items, Inr x) \<Rightarrow> (case f x of (rest, r) \<Rightarrow> (items @ rest, r)))"

text \<open>
  Modelled from the spec: \<open>proto_tree_add_item\<close> (epan/proto.c, not under src/). A field
  that holds a value (\<open>FT_UINT8\<close>, \<open>FT_UINT16\<close>, \<open>FT_ETHER\<close>) is read from the buffer, and
  "any peek or read that would run past the buffer end fails with a Truncated error": the
  call throws unless all the bytes of the field are in the buffer. \<open>FT_NONE\<close> and
  \<open>FT_PROTOCOL\<close> items are the containers of the tree; nothing is read for them, whatever
  their length.
\<close>

definition proto_tree_add_item ::
  "proto_tree \<Rightarrow> hf \<Rightarrow> tvbuff \<Rightarrow> nat \<Rightarrow> int \<Rightarrow> unit dissect" where
  "proto_tree_add_item t f tvb start len =
     (if hf_type f = FT_NONE \<or> hf_type f = FT_PROTOCOL
         \<or> (0 \<le> len \<and> start + nat len \<le> length tvb)
      then ([Item t f start len], Inr ())
      else ([], Inl Truncated))"

text \<open>
  Modelled from the spec: \<open>proto_tree_add_uint\<close>, \<open>proto_item_append_text\<close> (epan/proto.c) and
  \<open>col_set_str\<close> (epan/column-utils.c), not under src/. The caller passes the value or the
  text, no byte is read, and the spec names no failure of its output sink: the call adds
  its item and returns.
\<close>

definition proto_tree_add_uint :: "proto_tree \<Rightarrow> hf \<Rightarrow> nat \<Rightarrow> nat \<Rightarrow> nat \<Rightarrow> unit dissect" where
  "proto_tree_add_uint t f start len v = ([Uint t f start len v], Inr ())"

definition proto_item_append_text :: "proto_tree \<Rightarrow> string \<Rightarrow> nat \<Rightarrow> unit dissect" where
  "proto_item_append_text t label v = ([AppendText t label v], Inr ())"

definition col_set_str :: "column \<Rightarrow> string \<Rightarrow> unit dissect" where
  "col_set_str c s = ([ColSetStr c s], Inr ())"

text \<open>
  Modelled from the spec: \<open>val_to_str_const\<close> (epan/value_string.c, not under src/): the
  string of the first entry with the value, the given default when there is none
  ("unknown values are accepted and labeled").
\<close>

definition val_to_str_const :: "nat \<Rightarrow> (nat \<times> string) list \<Rightarrow> string \<Rightarrow> string" where
  "val_to_str_const v vals unknown_str =
     (case map_of vals v of Some s \<Rightarrow> s | None \<Rightarrow> unknown_str)"

text \<open>The bitmask column of the \<open>hf\<close> array in \<open>proto_register_mrp_mmrp\<close>.\<close>

fun hf_bitmask :: "hf \<Rightarrow> 16 word" where
  "hf_bitmask hf_mmrp_leave_all_event = MMRP_LEAVE_ALL_EVENT_MASK"
| "hf_bitmask hf_mmrp_number_of_values = MMRP_NUMBER_OF_VALUES_MASK"
| "hf_bitmask _ = 0x0"

definition vector_header_fields :: "hf list" where
  "vector_header_fields = [hf_mmrp_leave_all_event, hf_mmrp_number_of_values]"

text \<open>
  Modelled from the spec: \<open>proto_tree_add_bitmask\<close> (epan/proto.c, not under src/). It reads
  the header value, adds the header item and, for each field of the list, the bits of the
  value under the field's mask, moved down to bit 0 ("extract Leave-All-Event as bits
  [15:13] (mask 0xE000, 3 bits) and Number-of-Values as bits [12:0] (mask 0x1FFF)").
  \<open>hfinfo_bitshift\<close> is the number of zero bits below the lowest set bit of the mask.
\<close>

fun trailing_zeros :: "nat \<Rightarrow> 16 word \<Rightarrow> nat" where
  "trailing_zeros 0 m = 0"
| "trailing_zeros (Suc k) m = (if bit m 0 then 0 else Suc (trailing_zeros k (drop_bit 1 m)))"

definition hfinfo_bitshift :: "16 word \<Rightarrow> nat" where
  "hfinfo_bitshift m = trailing_zeros 16 m"

definition bitmask_value :: "16 word \<Rightarrow> 16 word \<Rightarrow> 16 word" where
  "bitmask_value m h = (if m = 0 then h else drop_bit (hfinfo_bitshift m) (h AND m))"

definition proto_tree_add_bitmask ::
  "proto_tree \<Rightarrow> tvbuff \<Rightarrow> nat \<Rightarrow> hf \<Rightarrow> proto_tree \<Rightarrow> hf list \<Rightarrow> unit dissect" where
  "proto_tree_add_bitmask parent tvb offset hf_hdr ett fields =
     and_then (reads (tvb_get_ntohs tvb offset)) (\<lambda>h.
       (Item parent hf_hdr offset 2
          # map (\<lambda>f. Uint ett f offset 2 (unat (bitmask_value (hf_bitmask f) h))) fields,
        Inr ()))"

subsection \<open>dissect_mmrp_common1 and dissect_mmrp_common2\<close>

definition dissect_mmrp_common1 :: "proto_tree \<Rightarrow> tvbuff \<Rightarrow> nat \<Rightarrow> unit dissect" where
  "dissect_mmrp_common1 msg_tree' tvb msg_offset =
     and_then (proto_tree_add_item msg_tree' hf_mmrp_attribute_type tvb
                 (MMRP_ATTRIBUTE_TYPE_OFFSET + msg_offset) 1) (\<lambda>_.
     proto_tree_add_item msg_tree' hf_mmrp_attribute_length tvb
                 (MMRP_ATTRIBUTE_LENGTH_OFFSET + msg_offset) 1)"

definition dissect_mmrp_common2 :: "proto_tree \<Rightarrow> tvbuff \<Rightarrow> nat \<Rightarrow> unit dissect" where
  "dissect_mmrp_common2 vect_attr_tree' tvb msg_offset =
     proto_tree_add_bitmask vect_attr_tree' tvb (MMRP_VECTOR_HEADER_OFFSET + msg_offset)
       hf_mmrp_vector_header vector_header_tree vector_header_fields"

subsection \<open>dissect_mmrp_three_packed_event\<close>

text \<open>
  Lines 179 to 184: the array \<open>three_packed_event[3]\<close> computed from the byte read, in
  \<open>guint8\<close> arithmetic.
\<close>

definition three_packed_event :: "8 word \<Rightarrow> 8 word \<times> 8 word \<times> 8 word" where
  "three_packed_event value0 =
     (let e0 = value0 div 36;
          value1 = value0 - 36 * e0;
          e1 = value1 div 6;
          value2 = value1 - 6 * e1;
          e2 = value2
      in (e0, e1, e2))"

text \<open>
  Lines 186 to 198: the first event is added and counted; the second and the third only
  while the counter is below \<open>number_of_values\<close>. The result is the counter.
\<close>

definition three_packed_add ::
  "16 word \<Rightarrow> nat \<Rightarrow> nat \<Rightarrow> 8 word \<times> 8 word \<times> 8 word \<Rightarrow> nat dissect" where
  "three_packed_add number_of_values counter offset ev =
     (case ev of (e0, e1, e2) \<Rightarrow>
        and_then (proto_tree_add_uint vect_attr_tree hf_mmrp_three_packed_event offset 1
                    (unat e0)) (\<lambda>_.
        and_then (returns (counter + 1)) (\<lambda>counter.
        and_then (if counter < unat number_of_values then
                    and_then (proto_tree_add_uint vect_attr_tree hf_mmrp_three_packed_event
                                offset 1 (unat e1)) (\<lambda>_.
                    returns (counter + 1))
                  else returns counter) (\<lambda>counter.
        if counter < unat number_of_values then
          and_then (proto_tree_add_uint vect_attr_tree hf_mmrp_three_packed_event
                      offset 1 (unat e2)) (\<lambda>_.
          returns (counter + 1))
        else returns counter))))"

text \<open>The \<open>for\<close> loop of lines 175 to 201, from a given counter and offset.\<close>

function three_packed_loop :: "tvbuff \<Rightarrow> 16 word \<Rightarrow> nat \<Rightarrow> nat \<Rightarrow> nat dissect" where
  "three_packed_loop tvb number_of_values counter offset =
     (if counter < unat number_of_values then
        (case tvb_get_guint8 tvb offset of
           Inl e \<Rightarrow> ([], Inl e)
         | Inr v \<Rightarrow>
             (case three_packed_add number_of_values counter offset (three_packed_event v) of
                (items, Inl e) \<Rightarrow> (items, Inl e)
              | (items, Inr counter') \<Rightarrow>
                  (case three_packed_loop tvb number_of_values counter' (offset + 1) of
                     (rest, r) \<Rightarrow> (items @ rest, r))))
      else ([], Inr offset))"
  by pat_completeness auto
termination
  apply (relation "measure (\<lambda>(tvb, n, counter, offset). unat n - counter)")
   apply simp
  apply (auto simp: three_packed_add_def and_then_def returns_def proto_tree_add_uint_def
      split: prod.splits if_splits)
  done


definition dissect_mmrp_three_packed_event :: "tvbuff \<Rightarrow> nat \<Rightarrow> 16 word \<Rightarrow> nat dissect" where
  "dissect_mmrp_three_packed_event tvb offset number_of_values =
     three_packed_loop tvb number_of_values 0 offset"

subsection \<open>dissect_mmrp\<close>

text \<open>
  C converts a value to \<open>int\<close> (32 bits, two's complement) by wrapping. Line 292 adds and
  divides in \<open>int\<close>, after the integer promotions of its \<open>guint8\<close> and \<open>guint16\<close> operands;
  \<open>sdiv\<close> is C's division, which truncates.
\<close>

definition c_int :: "int \<Rightarrow> int" where
  "c_int x = (x + 2 ^ 31) mod 2 ^ 32 - 2 ^ 31"

definition vect_attr_len :: "8 word \<Rightarrow> 16 word \<Rightarrow> int" where
  "vect_attr_len attribute_length number_of_values =
     c_int (c_int (2 + uint attribute_length)
            + c_int (c_int (uint number_of_values + 2) sdiv 3))"

text \<open>
  The body of the Vector Attribute loop, lines 289 to 334. It gives the new \<open>vect_offset\<close>
  and the new \<open>offset\<close>; the latter changes only in the two branches that call
  \<open>dissect_mmrp_three_packed_event\<close>.
\<close>

definition vect_attr_body ::
  "tvbuff \<Rightarrow> 8 word \<Rightarrow> 8 word \<Rightarrow> nat \<Rightarrow> nat \<Rightarrow> nat \<Rightarrow> (nat \<times> nat) dissect" where
  "vect_attr_body tvb attribute_type attribute_length msg_offset vect_offset offset =
     and_then (reads (tvb_get_ntohs tvb
                        (MMRP_NUMBER_OF_VALUES_OFFSET + msg_offset + vect_offset))) (\<lambda>h.
     and_then (returns (h AND MMRP_NUMBER_OF_VALUES_MASK)) (\<lambda>number_of_values.
     and_then (returns (vect_attr_len attribute_length number_of_values)) (\<lambda>vect_attr_len'.
     and_then (proto_tree_add_item attr_list_tree hf_mmrp_vector_attribute tvb
                 (MMRP_VECTOR_ATTRIBUTE_GROUP_OFFSET + msg_offset + vect_offset)
                 vect_attr_len') (\<lambda>_.
     and_then (dissect_mmrp_common2 vect_attr_tree tvb (msg_offset + vect_offset)) (\<lambda>_.
     and_then
       (if attribute_type = MMRP_ATTRIBUTE_TYPE_MAC then
          and_then (proto_tree_add_item vect_attr_tree hf_mmrp_first_value tvb
                      (MMRP_FIRST_VALUE_GROUP_OFFSET + msg_offset + vect_offset)
                      (uint attribute_length)) (\<lambda>_.
          and_then (proto_tree_add_item first_value_tree hf_mmrp_mac tvb
                      (MMRP_FIRST_VALUE_GROUP_OFFSET + msg_offset + vect_offset) 6) (\<lambda>_.
          dissect_mmrp_three_packed_event tvb
            (MMRP_MAC_THREE_PACKED_OFFSET + msg_offset + vect_offset) number_of_values))
        else if attribute_type = MMRP_ATTRIBUTE_TYPE_SERVICE then
          and_then (proto_tree_add_item vect_attr_tree hf_mmrp_first_value tvb
                      (MMRP_FIRST_VALUE_GROUP_OFFSET + msg_offset + vect_offset)
                      (uint attribute_length)) (\<lambda>_.
          and_then (proto_tree_add_item first_value_tree hf_mmrp_ser_req tvb
                      (MMRP_FIRST_VALUE_GROUP_OFFSET + msg_offset + vect_offset) 1) (\<lambda>_.
          dissect_mmrp_three_packed_event tvb
            (MMRP_SERVICE_THREE_PACKED_OFFSET + msg_offset + vect_offset) number_of_values))
        else returns offset) (\<lambda>offset.
     returns (vect_offset + nat vect_attr_len', offset)))))))"



subsection \<open>Facts the loops of dissect_mmrp need to terminate\<close>

lemma and_then_Inr_iff:
  "and_then m f = (items, Inr y) \<longleftrightarrow>
     (\<exists>its x rest. m = (its, Inr x) \<and> f x = (rest, Inr y) \<and> items = its @ rest)"
  by (auto simp: and_then_def split: prod.splits sum.splits)

lemma c_int_id: "- (2 ^ 31) \<le> x \<Longrightarrow> x < 2 ^ 31 \<Longrightarrow> c_int x = x"
  by (simp add: c_int_def)

lemma vect_attr_len_eq:
  "vect_attr_len attribute_length number_of_values =
     2 + uint attribute_length + (uint number_of_values + 2) div 3"
proof -
  have l: "0 \<le> uint attribute_length" "uint attribute_length < 256"
    using uint_bounded [of attribute_length] by simp_all
  have n: "0 \<le> uint number_of_values" "uint number_of_values < 65536"
    using uint_bounded [of number_of_values] by simp_all
  have 1: "c_int (uint number_of_values + 2) = uint number_of_values + 2"
    using n by (intro c_int_id) simp_all
  have 2: "(uint number_of_values + 2) sdiv 3 = (uint number_of_values + 2) div 3"
    using n by (simp add: signed_divide_int_def sgn_if)
  have d: "0 \<le> (uint number_of_values + 2) div 3" "(uint number_of_values + 2) div 3 < 21846"
    using n by linarith+
  have 3: "c_int ((uint number_of_values + 2) div 3) = (uint number_of_values + 2) div 3"
    using d by (intro c_int_id) simp_all
  have 4: "c_int (2 + uint attribute_length) = 2 + uint attribute_length"
    using l by (intro c_int_id) simp_all
  have 5: "c_int (2 + uint attribute_length + (uint number_of_values + 2) div 3)
           = 2 + uint attribute_length + (uint number_of_values + 2) div 3"
    using l d by (intro c_int_id) simp_all
  show ?thesis
    by (simp add: vect_attr_len_def 1 2 3 4 5)
qed

lemma vect_attr_len_ge2: "2 \<le> vect_attr_len attribute_length number_of_values"
proof -
  have "0 \<le> uint number_of_values"
    by simp
  then have "0 \<le> (uint number_of_values + 2) div 3"
    by linarith
  moreover have "0 \<le> uint attribute_length"
    by simp
  ultimately
  show ?thesis unfolding vect_attr_len_eq by linarith
qed

lemma vect_attr_body_advance:
  assumes "vect_attr_body tvb t l m v offset = (items, Inr (v', offset'))"
  shows "v + 2 \<le> v'"
proof -
  from assms obtain n where "v' = v + nat (vect_attr_len l n)"
    unfolding vect_attr_body_def and_then_Inr_iff returns_def by auto
  with vect_attr_len_ge2 [of l n] show ?thesis by simp
qed


text \<open>
  The \<open>while\<close> loop of lines 279 to 335, from a given \<open>vect_offset\<close>. It ends at the End
  Mark with the \<open>vect_offset\<close> and the \<open>offset\<close> it has reached.
\<close>

function vect_attr_loop ::
  "tvbuff \<Rightarrow> 8 word \<Rightarrow> 8 word \<Rightarrow> nat \<Rightarrow> nat \<Rightarrow> nat \<Rightarrow> (nat \<times> nat) dissect" where
  "vect_attr_loop tvb attribute_type attribute_length msg_offset vect_offset offset =
     (case tvb_get_ntohs tvb (MMRP_VECTOR_HEADER_OFFSET + msg_offset + vect_offset) of
        Inl e \<Rightarrow> ([], Inl e)
      | Inr h \<Rightarrow>
          if h \<noteq> MMRP_END_MARK then
            (case vect_attr_body tvb attribute_type attribute_length msg_offset vect_offset
                    offset of
               (items, Inl e) \<Rightarrow> (items, Inl e)
             | (items, Inr (vect_offset', offset')) \<Rightarrow>
                 (case vect_attr_loop tvb attribute_type attribute_length msg_offset
                         vect_offset' offset' of
                    (rest, r) \<Rightarrow> (items @ rest, r)))
          else ([], Inr (vect_offset, offset)))"
  by pat_completeness auto
termination
  apply (relation "measure (\<lambda>(tvb, t, l, msg_offset, vect_offset, offset).
                     length tvb - (msg_offset + vect_offset))")
   apply simp
  apply (auto dest!: vect_attr_body_advance [OF sym] simp: tvb_get_ntohs_def split: if_splits)
  done

declare vect_attr_loop.simps [simp del]

text \<open>The body of the Message loop, lines 242 to 339: the new \<open>msg_offset\<close> and \<open>offset\<close>.\<close>

definition message_body :: "tvbuff \<Rightarrow> nat \<Rightarrow> nat \<Rightarrow> (nat \<times> nat) dissect" where
  "message_body tvb msg_offset offset =
     and_then (reads (tvb_get_guint8 tvb (MMRP_ATTRIBUTE_TYPE_OFFSET + msg_offset)))
       (\<lambda>attribute_type.
     and_then (reads (tvb_get_guint8 tvb (MMRP_ATTRIBUTE_LENGTH_OFFSET + msg_offset)))
       (\<lambda>attribute_length.
     and_then (proto_tree_add_item mmrp_tree hf_mmrp_message tvb
                 (MMRP_MESSAGE_GROUP_OFFSET + msg_offset) (- 1)) (\<lambda>_.
     and_then (proto_item_append_text msg_tree
                 (val_to_str_const (unat attribute_type) attribute_type_vals ''<Unknown>'')
                 (unat attribute_type)) (\<lambda>_.
     and_then (dissect_mmrp_common1 msg_tree tvb msg_offset) (\<lambda>_.
     and_then (proto_tree_add_item msg_tree hf_mmrp_attribute_list tvb
                 (MMRP_ATTRIBUTE_LIST_GROUP_OFFSET + msg_offset) (- 1)) (\<lambda>_.
     and_then (vect_attr_loop tvb attribute_type attribute_length msg_offset 0 offset)
       (\<lambda>(vect_offset, offset).
     and_then (proto_tree_add_item attr_list_tree hf_mmrp_end_mark tvb offset 2) (\<lambda>_.
     returns (msg_offset + (vect_offset + 2 + 2), offset)))))))))"

lemma message_body_advance:
  assumes "message_body tvb m offset = (items, Inr (m', offset'))"
  shows "m + 4 \<le> m'"
proof -
  from assms obtain v where "m' = m + (v + 2 + 2)"
    by (auto simp: message_body_def and_then_Inr_iff returns_def split: prod.splits)
  then show ?thesis by simp
qed

text \<open>The \<open>while\<close> loop of lines 239 to 341, from a given \<open>msg_offset\<close>.\<close>

function message_loop :: "tvbuff \<Rightarrow> nat \<Rightarrow> nat \<Rightarrow> (nat \<times> nat) dissect" where
  "message_loop tvb msg_offset offset =
     (case tvb_get_ntohs tvb (MMRP_ATTRIBUTE_TYPE_OFFSET + msg_offset) of
        Inl e \<Rightarrow> ([], Inl e)
      | Inr h \<Rightarrow>
          if h \<noteq> MMRP_END_MARK then
            (case message_body tvb msg_offset offset of
               (items, Inl e) \<Rightarrow> (items, Inl e)
             | (items, Inr (msg_offset', offset')) \<Rightarrow>
                 (case message_loop tvb msg_offset' offset' of
                    (rest, r) \<Rightarrow> (items @ rest, r)))
          else ([], Inr (msg_offset, offset)))"
  by pat_completeness auto
termination
  apply (relation "measure (\<lambda>(tvb, msg_offset, offset). length tvb - msg_offset)")
   apply simp
  apply (auto dest!: message_body_advance [OF sym] simp: tvb_get_ntohs_def split: if_splits)
  done

text \<open>
  \<open>dissect_mmrp\<close>. The argument \<open>tree\<close> says whether the caller asked for a protocol tree
  (\<open>if (tree)\<close>); without one only the two columns are set. \<open>offset\<close> starts at 0.
\<close>

definition dissect_mmrp :: "tvbuff \<Rightarrow> bool \<Rightarrow> nat dissect" where
  "dissect_mmrp tvb tree' =
     and_then (col_set_str COL_PROTOCOL ''MRP-MMRP'') (\<lambda>_.
     and_then (col_set_str COL_INFO ''Multiple Mac Registration Protocol'') (\<lambda>_.
     and_then
       (if tree' then
          and_then (proto_tree_add_item tree proto_mmrp tvb 0 (- 1)) (\<lambda>_.
          and_then (proto_tree_add_item mmrp_tree hf_mmrp_proto_id tvb
                      MMRP_PROTOCOL_VERSION_OFFSET 1) (\<lambda>_.
          and_then (message_loop tvb 0 0) (\<lambda>(msg_offset, offset).
          proto_tree_add_item mmrp_tree hf_mmrp_end_mark tvb (offset + 2) 2)))
        else returns ()) (\<lambda>_.
     returns (tvb_captured_length tvb))))"

declare three_packed_loop.simps [simp del]

declare message_loop.simps [simp del]

subsection \<open>The packed-event law in the spec's words\<close>

text \<open>
  Section 4.4 and testable property 2 of the spec: a byte \<open>v\<close> expands to the three digits
  \<open>[v/36, (v%36)/6, v%6]\<close>, and \<open>N\<close> events are the first \<open>N\<close> digits of the bytes in order.
\<close>

definition expand_spec :: "nat \<Rightarrow> nat list" where
  "expand_spec v = [v div 36, (v mod 36) div 6, v mod 6]"

definition packed_events_spec :: "nat list \<Rightarrow> nat \<Rightarrow> nat list" where
  "packed_events_spec bytes N = take N (concat (map expand_spec bytes))"

text \<open>
  The item the law expects as event number \<open>i\<close> (from 0) of a run that starts at \<open>offset\<close>:
  digit \<open>i mod 3\<close> of the byte at \<open>offset + i div 3\<close>, added at that byte.
\<close>

definition packed_event_item :: "tvbuff \<Rightarrow> nat \<Rightarrow> nat \<Rightarrow> item" where
  "packed_event_item tvb offset i =
     Uint vect_attr_tree hf_mmrp_three_packed_event (offset + i div 3) 1
       (expand_spec (unat (tvb ! (offset + i div 3))) ! (i mod 3))"

fun uint_value :: "item \<Rightarrow> nat" where
  "uint_value (Uint t f start len v) = v"
| "uint_value _ = 0"

text \<open>
  The four items every Vector Attribute starts with (lines 294 to 300), for the header
  value \<open>h\<close> read at \<open>pos\<close>.
\<close>

definition vect_attr_head :: "8 word \<Rightarrow> nat \<Rightarrow> 16 word \<Rightarrow> item list" where
  "vect_attr_head attribute_length pos h =
     [Item attr_list_tree hf_mmrp_vector_attribute pos
        (vect_attr_len attribute_length (h AND MMRP_NUMBER_OF_VALUES_MASK)),
      Item vect_attr_tree hf_mmrp_vector_header pos 2,
      Uint vector_header_tree hf_mmrp_leave_all_event pos 2 (unat h div 8192),
      Uint vector_header_tree hf_mmrp_number_of_values pos 2 (unat h mod 8192)]"

text \<open>
  The five items every Message starts with (lines 252 to 271), and the four that
  \<open>dissect_mmrp\<close> starts with.
\<close>

definition message_head :: "tvbuff \<Rightarrow> nat \<Rightarrow> item list" where
  "message_head tvb m =
     [Item mmrp_tree hf_mmrp_message (1 + m) (- 1),
      AppendText msg_tree
        (val_to_str_const (unat (tvb ! (1 + m))) attribute_type_vals ''<Unknown>'')
        (unat (tvb ! (1 + m))),
      Item msg_tree hf_mmrp_attribute_type (1 + m) 1,
      Item msg_tree hf_mmrp_attribute_length (2 + m) 1,
      Item msg_tree hf_mmrp_attribute_list (3 + m) (- 1)]"

definition dissect_head :: "item list" where
  "dissect_head =
     [ColSetStr COL_PROTOCOL ''MRP-MMRP'',
      ColSetStr COL_INFO ''Multiple Mac Registration Protocol'',
      Item tree proto_mmrp 0 (- 1),
      Item mmrp_tree hf_mmrp_proto_id 0 1]"

text \<open>
  An item lies in the buffer when the bytes it names are there: \<open>start\<close> to \<open>start + len\<close>
  for a length that is given, \<open>start\<close> to the end for the length -1. The text added to an
  item and the columns name no bytes.
\<close>

fun item_in_buffer :: "tvbuff \<Rightarrow> item \<Rightarrow> bool" where
  "item_in_buffer tvb (Item t f start len) =
     (if len < 0 then start \<le> length tvb else start + nat len \<le> length tvb)"
| "item_in_buffer tvb (Uint t f start len v) = (start + len \<le> length tvb)"
| "item_in_buffer tvb (AppendText t label v) = True"
| "item_in_buffer tvb (ColSetStr c s) = True"

text \<open>
  A frame with one MAC Message whose AttributeLength is 7: one Vector Attribute with one
  value, a 7-byte first value and one packed byte, then the two End Marks.
\<close>

definition mac7_tvb :: tvbuff where
  "mac7_tvb = [0x00, 0x02, 0x07, 0x00, 0x01, 0xA1, 0xA2, 0xA3, 0xA4, 0xA5, 0xA6, 0xA7, 0x48,
               0x00, 0x00, 0x00, 0x00]"

text \<open>
  A well-formed frame with one MAC Message (AttributeLength 6): one Vector Attribute with
  four values in two packed bytes, then the two End Marks.
\<close>

definition mac6_tvb :: tvbuff where
  "mac6_tvb = [0x00, 0x02, 0x06, 0x00, 0x04, 0x01, 0x02, 0x03, 0x04, 0x05, 0x06, 0x48, 0x0F,
               0x00, 0x00, 0x00, 0x00]"

text \<open>
  A frame with one Message of the unknown attribute type 3 (AttributeLength 1): one Vector
  Attribute with Leave-All-Event 1 and one value, then the two End Marks.
\<close>

definition unknown_tvb :: tvbuff where
  "unknown_tvb = [0x00, 0x03, 0x01, 0x20, 0x01, 0xAA, 0x48, 0x00, 0x00, 0x00, 0x00]"

text \<open>
  The first twelve bytes of \<open>mac6_tvb\<close>: the Vector Header announces four values, which
  need two packed bytes, and one is left.
\<close>

definition cut_tvb :: tvbuff where
  "cut_tvb = [0x00, 0x02, 0x06, 0x00, 0x04, 0x01, 0x02, 0x03, 0x04, 0x05, 0x06, 0x48]"

text \<open>
  A frame with one MAC Message (AttributeLength 6) whose Vector Header is 0xE001:
  Leave-All-Event 7 and one value.
\<close>

definition leave_all_tvb :: tvbuff where
  "leave_all_tvb = [0x00, 0x02, 0x06, 0xE0, 0x01, 0x01, 0x02, 0x03, 0x04, 0x05, 0x06, 0x48,
                    0x00, 0x00, 0x00, 0x00]"

text \<open>
  The first four bytes of a MAC Message: the Vector Header is cut after its first byte.
\<close>

definition short_tvb :: tvbuff where
  "short_tvb = [0x00, 0x02, 0x06, 0x00]"

text \<open>
  Three zero bytes: the Message loop ends at once at the 0x0000 of bytes 1 to 2, and the
  two bytes of the End Mark that follows are not both there.
\<close>

definition zeros_tvb :: tvbuff where
  "zeros_tvb = [0x00, 0x00, 0x00]"

section \<open>The three-packed-event loop\<close>

lemma word8_sub_mult_div:
  fixes v k :: "8 word"
  shows "unat (v - k * (v div k)) = unat v mod unat k"
proof -
  have le: "unat k * (unat v div unat k) \<le> unat v"
    by simp
  have lt: "unat v < 2 ^ LENGTH(8)"
    by (rule unsigned_less)
  have "unat k * unat (v div k) < 2 ^ LENGTH(8)"
    using le lt unfolding unat_div by (rule le_less_trans)
  then have m: "unat (k * (v div k)) = unat k * (unat v div unat k)"
    by (simp add: unat_mult_lem [THEN iffD1] unat_div)
  have "k * (v div k) \<le> v"
    using le m by (simp add: word_le_nat_alt)
  then have "unat (v - k * (v div k)) = unat v - unat k * (unat v div unat k)"
    using m by (simp add: unat_sub)
  also have "\<dots> = unat v mod unat k"
    by (simp add: minus_mult_div_eq_mod)
  finally show ?thesis .
qed

lemma three_packed_event_unat:
  assumes "three_packed_event v = (e0, e1, e2)"
  shows "unat e0 = unat v div 36" "unat e1 = unat v mod 36 div 6" "unat e2 = unat v mod 6"
proof -
  have e0: "e0 = v div 36" and e1: "e1 = (v - 36 * (v div 36)) div 6"
    and e2: "e2 = (v - 36 * (v div 36)) - 6 * ((v - 36 * (v div 36)) div 6)"
    using assms by (auto simp: three_packed_event_def Let_def)
  have v1: "unat (v - 36 * (v div 36)) = unat v mod 36"
    using word8_sub_mult_div [of v 36] by simp
  show "unat e0 = unat v div 36"
    by (simp add: e0 unat_div)
  show "unat e1 = unat v mod 36 div 6"
    by (simp add: e1 unat_div v1)
  have "unat e2 = unat (v - 36 * (v div 36)) mod 6"
    unfolding e2 using word8_sub_mult_div [of "v - 36 * (v div 36)" 6] by simp
  also have "\<dots> = unat v mod 6"
    unfolding v1 by (simp add: mod_mod_cancel)
  finally show "unat e2 = unat v mod 6" .
qed

lemma packed_event_item_first:
  "packed_event_item tvb offset 0 =
     Uint vect_attr_tree hf_mmrp_three_packed_event offset 1 (unat (tvb ! offset) div 36)"
  "packed_event_item tvb offset (Suc 0) =
     Uint vect_attr_tree hf_mmrp_three_packed_event offset 1 (unat (tvb ! offset) mod 36 div 6)"
  "packed_event_item tvb offset (Suc (Suc 0)) =
     Uint vect_attr_tree hf_mmrp_three_packed_event offset 1 (unat (tvb ! offset) mod 6)"
  by (simp_all add: packed_event_item_def expand_spec_def)

lemma packed_event_item_shift:
  "packed_event_item tvb (Suc offset) i = packed_event_item tvb offset (i + 3)"
  by (simp add: packed_event_item_def)

lemma upt_min3:
  "[0..<min 3 k] =
     (if k = 0 then [] else if k = 1 then [0] else if k = 2 then [0, Suc 0]
      else [0, Suc 0, Suc (Suc 0)])"
proof -
  have "[0..<3] = [0, Suc 0, Suc (Suc 0)]" "[0..<2] = [0, Suc 0]"
    by (simp_all add: upt_rec)
  then show ?thesis
    by (auto simp: min_def)
qed

lemma three_packed_add_eq:
  assumes "c < unat n"
  shows "three_packed_add n c offset (three_packed_event (tvb ! offset)) =
           (map (packed_event_item tvb offset) [0..<min 3 (unat n - c)],
            Inr (c + min 3 (unat n - c)))"
proof -
  obtain e0 e1 e2 where ev: "three_packed_event (tvb ! offset) = (e0, e1, e2)"
    by (cases "three_packed_event (tvb ! offset)")
  note d = three_packed_event_unat [OF ev]
  consider "unat n - c = 1" | "unat n - c = 2" | "3 \<le> unat n - c"
    using assms by linarith
  then show ?thesis
  proof cases
    case 1
    then have cs: "\<not> c + 1 < unat n" by simp
    have up: "map (packed_event_item tvb offset) [0..<min 3 (unat n - c)]
              = map (packed_event_item tvb offset)
                  (if unat n - c = 1 then [0] else if unat n - c = 2 then [0, Suc 0]
                   else [0, Suc 0, Suc (Suc 0)])"
      using 1 by (subst upt_min3) simp
    show ?thesis
      unfolding up using cs 1
      by (simp add: ev three_packed_add_def and_then_def returns_def
          proto_tree_add_uint_def packed_event_item_first d)
  next
    case 2
    then have cs: "c + 1 < unat n" "\<not> c + 1 + 1 < unat n" by simp_all
    have up: "map (packed_event_item tvb offset) [0..<min 3 (unat n - c)]
              = map (packed_event_item tvb offset)
                  (if unat n - c = 1 then [0] else if unat n - c = 2 then [0, Suc 0]
                   else [0, Suc 0, Suc (Suc 0)])"
      using 2 by (subst upt_min3) simp
    show ?thesis
      unfolding up using cs 2
      by (simp add: ev three_packed_add_def and_then_def returns_def
          proto_tree_add_uint_def packed_event_item_first d)
  next
    case 3
    then have cs: "c + 1 < unat n" "c + 1 + 1 < unat n" by simp_all
    have up: "map (packed_event_item tvb offset) [0..<min 3 (unat n - c)]
              = map (packed_event_item tvb offset)
                  (if unat n - c = 1 then [0] else if unat n - c = 2 then [0, Suc 0]
                   else [0, Suc 0, Suc (Suc 0)])"
      using 3 by (subst upt_min3) simp
    show ?thesis
      unfolding up using cs 3
      by (simp add: ev three_packed_add_def and_then_def returns_def
          proto_tree_add_uint_def packed_event_item_first d)
  qed
qed

lemma map_packed_split:
  "map (packed_event_item tvb offset) [0..<min 3 k]
     @ map (packed_event_item tvb (offset + 1)) [0..<k - min 3 k]
   = map (packed_event_item tvb offset) [0..<k]"
proof (cases "k \<le> 3")
  case True
  then show ?thesis by (simp add: min_def)
next
  case False
  then have k: "min 3 k = 3" "k = 3 + (k - 3)" by simp_all
  have "map (packed_event_item tvb (offset + 1)) [0..<k - 3]
        = map (packed_event_item tvb offset) (map (\<lambda>i. i + 3) [0..<k - 3])"
    by (simp add: packed_event_item_shift comp_def)
  also have "map (\<lambda>i. i + 3) [0..<k - 3] = [3..<k]"
    using False by (simp add: map_add_upt)
  finally have "map (packed_event_item tvb (offset + 1)) [0..<k - 3]
        = map (packed_event_item tvb offset) [3..<k]" .
  moreover have "[0..<k] = [0..<3] @ [3..<k]"
    using False by (metis k(2) upt_add_eq_append zero_le)
  ultimately show ?thesis
    by (simp add: k(1))
qed

lemma three_packed_loop_eq:
  "three_packed_loop tvb n c offset =
     (map (packed_event_item tvb offset)
        [0..<min (unat n - c) (3 * (length tvb - offset))],
      if (unat n - c + 2) div 3 \<le> length tvb - offset
      then Inr (offset + (unat n - c + 2) div 3) else Inl Truncated)"
proof (induction tvb n c offset rule: three_packed_loop.induct)
  case (1 tvb n c offset)
  let ?k = "unat n - c"
  let ?l = "length tvb - offset"
  show ?case
  proof (cases "c < unat n")
    case False
    then show ?thesis
      by (simp add: three_packed_loop.simps)
  next
    case True
    then have k: "1 \<le> (?k + 2) div 3" by linarith
    show ?thesis
    proof (cases "offset < length tvb")
      case False
      then have "tvb_get_guint8 tvb offset = Inl Truncated"
        by (simp add: tvb_get_guint8_def)
      with True False k show ?thesis
        by (simp add: three_packed_loop.simps)
    next
      case inb: True
      let ?c' = "c + min 3 ?k"
      let ?K = "min ?k (3 * ?l)"
      have rd: "tvb_get_guint8 tvb offset = Inr (tvb ! offset)"
        using inb by (simp add: tvb_get_guint8_def)
      note add = three_packed_add_eq [OF True, of offset tvb]
      have m3: "min 3 ?K = min 3 ?k"
        using inb by (simp add: min_def)
      have K': "min (unat n - ?c') (3 * (length tvb - (offset + 1))) = ?K - min 3 ?K"
        using inb True by (simp add: min_def) linarith
      have cond: "(unat n - ?c' + 2) div 3 \<le> length tvb - (offset + 1)
                  \<longleftrightarrow> (?k + 2) div 3 \<le> ?l"
        using inb True by (simp add: min_def) linarith
      have adv: "offset + 1 + (unat n - ?c' + 2) div 3 = offset + (?k + 2) div 3"
        using True by (simp add: min_def) linarith
      have rec: "three_packed_loop tvb n ?c' (offset + 1) =
              (map (packed_event_item tvb (offset + 1)) [0..<?K - min 3 ?K],
               if (?k + 2) div 3 \<le> ?l then Inr (offset + (?k + 2) div 3)
               else Inl Truncated)"
        using "1.IH" [OF True rd add [symmetric] refl]
        unfolding K' cond adv .
      have "three_packed_loop tvb n c offset =
              (map (packed_event_item tvb offset) [0..<min 3 ?k]
                 @ map (packed_event_item tvb (offset + 1)) [0..<?K - min 3 ?K],
               if (?k + 2) div 3 \<le> ?l then Inr (offset + (?k + 2) div 3)
               else Inl Truncated)"
        by (subst three_packed_loop.simps)
          (simp only: True if_True rd add rec sum.case prod.case)
      then show ?thesis
        by (simp only: m3 [symmetric] map_packed_split)
    qed
  qed
qed

lemma ceiling_thirds: "nat \<lceil>real N / 3\<rceil> = (N + 2) div 3"
proof -
  have "\<lceil>real N / 3\<rceil> = \<lceil>of_int (int N) / (of_int 3 :: real)\<rceil>"
    by simp
  also have "\<dots> = - (- int N div 3)"
    by (rule ceiling_divide_eq_div)
  also have "\<dots> = int ((N + 2) div 3)"
    by (simp add: zdiv_int)
  finally show ?thesis
    by simp
qed

lemma length_expand_spec: "length (expand_spec v) = 3"
  by (simp add: expand_spec_def)

lemma length_concat_expand: "length (concat (map expand_spec bs)) = 3 * length bs"
  by (induction bs) (simp_all add: length_expand_spec)

lemma nth_concat_expand:
  "i < 3 * length bs \<Longrightarrow>
   concat (map expand_spec bs) ! i = expand_spec (bs ! (i div 3)) ! (i mod 3)"
proof (induction bs arbitrary: i)
  case Nil
  then show ?case by simp
next
  case (Cons b bs)
  show ?case
  proof (cases "i < 3")
    case True
    then have "i div 3 = 0" "i mod 3 = i" by simp_all
    with True show ?thesis
      by (simp add: nth_append length_expand_spec)
  next
    case False
    then have i: "i = (i - 3) + 3" by simp
    from False Cons.prems have "i - 3 < 3 * length bs" by simp
    from Cons.IH [OF this] have
      "concat (map expand_spec bs) ! (i - 3)
         = expand_spec (bs ! ((i - 3) div 3)) ! ((i - 3) mod 3)" .
    moreover have "(i - 3) div 3 = i div 3 - 1" "(i - 3) mod 3 = i mod 3" "1 \<le> i div 3"
      using False by presburger+
    ultimately show ?thesis
      using False by (simp add: nth_append length_expand_spec)
  qed
qed

lemma uint_value_packed_event_item:
  "uint_value (packed_event_item tvb offset i)
     = expand_spec (unat (tvb ! (offset + i div 3))) ! (i mod 3)"
  by (simp add: packed_event_item_def)

lemma length_packed_events_spec:
  "N \<le> 3 * length bs \<Longrightarrow> length (packed_events_spec bs N) = N"
  by (simp add: packed_events_spec_def length_concat_expand)

lemma nth_packed_events_spec:
  "i < N \<Longrightarrow> N \<le> 3 * length bs \<Longrightarrow>
   packed_events_spec bs N ! i = expand_spec (bs ! (i div 3)) ! (i mod 3)"
  by (simp add: packed_events_spec_def nth_concat_expand)

lemma packed_events_spec_eq:
  assumes "offset + (N + 2) div 3 \<le> length tvb"
  shows "map (uint_value \<circ> packed_event_item tvb offset) [0..<N]
         = packed_events_spec (map unat (take ((N + 2) div 3) (drop offset tvb))) N"
proof (rule nth_equalityI)
  let ?bs = "map unat (take ((N + 2) div 3) (drop offset tvb))"
  have len: "length ?bs = (N + 2) div 3"
    using assms by simp
  have N: "N \<le> 3 * length ?bs"
    unfolding len by linarith
  show "length (map (uint_value \<circ> packed_event_item tvb offset) [0..<N])
        = length (packed_events_spec ?bs N)"
    by (simp only: length_packed_events_spec [OF N] length_map length_upt diff_zero)
  fix i
  assume "i < length (map (uint_value \<circ> packed_event_item tvb offset) [0..<N])"
  then have i: "i < N" by simp
  then have d: "i div 3 < (N + 2) div 3" by linarith
  have b: "?bs ! (i div 3) = unat (tvb ! (offset + i div 3))"
    using d assms by simp
  have "packed_events_spec ?bs N ! i = expand_spec (?bs ! (i div 3)) ! (i mod 3)"
    by (rule nth_packed_events_spec [OF i N])
  then show "map (uint_value \<circ> packed_event_item tvb offset) [0..<N] ! i
                = packed_events_spec ?bs N ! i"
    unfolding b using i by (simp add: uint_value_packed_event_item)
qed

section \<open>The Vector Header and the body of the Vector Attribute loop\<close>

lemma hfinfo_bitshift_masks:
  "hfinfo_bitshift MMRP_LEAVE_ALL_EVENT_MASK = 13"
  "hfinfo_bitshift MMRP_NUMBER_OF_VALUES_MASK = 0"
  by code_simp+

lemma number_of_values_mask: "h AND MMRP_NUMBER_OF_VALUES_MASK = take_bit 13 h"
proof -
  have "MMRP_NUMBER_OF_VALUES_MASK = mask 13"
    by (simp add: MMRP_NUMBER_OF_VALUES_MASK_def mask_eq_exp_minus_1)
  then show ?thesis
    by (simp add: take_bit_eq_mask)
qed

lemma unat_number_of_values: "unat (h AND MMRP_NUMBER_OF_VALUES_MASK) = unat h mod 8192"
  by (simp add: number_of_values_mask take_bit_eq_mod unat_mod)

lemma leave_all_event_mask:
  "drop_bit 13 (h AND MMRP_LEAVE_ALL_EVENT_MASK) = drop_bit 13 (h :: 16 word)"
proof -
  have m: "MMRP_LEAVE_ALL_EVENT_MASK = push_bit 13 (mask 3)"
    by (simp add: MMRP_LEAVE_ALL_EVENT_MASK_def mask_eq_exp_minus_1)
  have "n < 3" if "bit h (13 + n)" for n
    using bit_imp_le_length [OF that] by simp
  then show ?thesis
    unfolding m by (auto intro!: bit_word_eqI simp: bit_simps)
qed

lemma unat_leave_all_event: "unat (drop_bit 13 (h :: 16 word)) = unat h div 8192"
  by (simp add: drop_bit_eq_div unat_div)

lemma bitmask_value_fields:
  "unat (bitmask_value (hf_bitmask hf_mmrp_leave_all_event) h) = unat h div 8192"
  "unat (bitmask_value (hf_bitmask hf_mmrp_number_of_values) h) = unat h mod 8192"
proof -
  have "MMRP_LEAVE_ALL_EVENT_MASK \<noteq> 0" "MMRP_NUMBER_OF_VALUES_MASK \<noteq> 0"
    by (simp_all add: MMRP_LEAVE_ALL_EVENT_MASK_def MMRP_NUMBER_OF_VALUES_MASK_def)
  then have "bitmask_value (hf_bitmask hf_mmrp_leave_all_event) h
               = drop_bit 13 (h AND MMRP_LEAVE_ALL_EVENT_MASK)"
    "bitmask_value (hf_bitmask hf_mmrp_number_of_values) h
               = drop_bit 0 (h AND MMRP_NUMBER_OF_VALUES_MASK)"
    by (simp_all only: bitmask_value_def hfinfo_bitshift_masks hf_bitmask.simps if_False)
  then show "unat (bitmask_value (hf_bitmask hf_mmrp_leave_all_event) h) = unat h div 8192"
    "unat (bitmask_value (hf_bitmask hf_mmrp_number_of_values) h) = unat h mod 8192"
    by (simp_all only: leave_all_event_mask unat_leave_all_event unat_number_of_values
        drop_bit_0 id_apply)
qed

lemma dissect_mmrp_common2_eq:
  assumes "tvb_get_ntohs tvb (MMRP_VECTOR_HEADER_OFFSET + k) = Inr h"
  shows "dissect_mmrp_common2 vect_attr_tree tvb k =
     ([Item vect_attr_tree hf_mmrp_vector_header (MMRP_VECTOR_HEADER_OFFSET + k) 2,
       Uint vector_header_tree hf_mmrp_leave_all_event (MMRP_VECTOR_HEADER_OFFSET + k) 2
         (unat h div 8192),
       Uint vector_header_tree hf_mmrp_number_of_values (MMRP_VECTOR_HEADER_OFFSET + k) 2
         (unat h mod 8192)],
      Inr ())"
  using assms
  by (simp add: dissect_mmrp_common2_def proto_tree_add_bitmask_def and_then_def reads_def
      vector_header_fields_def bitmask_value_fields del: hf_bitmask.simps)

lemma nat_vect_attr_len:
  "nat (vect_attr_len l n) = 2 + unat l + (unat n + 2) div 3"
proof -
  have a: "uint l = int (unat l)" "uint n = int (unat n)"
    by (rule uint_nat)+
  have b: "(int (unat n) + 2) div 3 = int ((unat n + 2) div 3)"
    by linarith
  show ?thesis
    unfolding vect_attr_len_eq a b by linarith
qed

lemma dissect_mmrp_three_packed_event_eq:
  "dissect_mmrp_three_packed_event tvb start n =
     (map (packed_event_item tvb start) [0..<min (unat n) (3 * (length tvb - start))],
      if (unat n + 2) div 3 \<le> length tvb - start
      then Inr (start + (unat n + 2) div 3) else Inl Truncated)"
  by (simp add: dissect_mmrp_three_packed_event_def three_packed_loop_eq)

lemma and_then_simps:
  "and_then (returns x) f = f x"
  "and_then (reads (Inr x)) f = f x"
  "and_then (reads (Inl e)) f = ([], Inl e)"
  "and_then (items, Inr x) f = (items @ fst (f x), snd (f x))"
  "and_then (items, Inl e) f = (items, Inl e)"
  by (simp_all add: and_then_def returns_def reads_def split: prod.splits)

lemma proto_tree_add_item_container:
  "hf_type f = FT_NONE \<or> hf_type f = FT_PROTOCOL \<Longrightarrow>
     proto_tree_add_item t f tvb start len = ([Item t f start len], Inr ())"
  by (auto simp: proto_tree_add_item_def)

lemma proto_tree_add_item_value:
  "hf_type f \<noteq> FT_NONE \<Longrightarrow> hf_type f \<noteq> FT_PROTOCOL \<Longrightarrow>
     proto_tree_add_item t f tvb start (int k) =
       (if start + k \<le> length tvb then ([Item t f start (int k)], Inr ())
        else ([], Inl Truncated))"
  by (simp add: proto_tree_add_item_def)

lemma proto_tree_add_item_mmrp:
  "proto_tree_add_item t hf_mmrp_message tvb start len
     = ([Item t hf_mmrp_message start len], Inr ())"
  "proto_tree_add_item t hf_mmrp_attribute_list tvb start len
     = ([Item t hf_mmrp_attribute_list start len], Inr ())"
  "proto_tree_add_item t hf_mmrp_vector_attribute tvb start len
     = ([Item t hf_mmrp_vector_attribute start len], Inr ())"
  "proto_tree_add_item t hf_mmrp_first_value tvb start len
     = ([Item t hf_mmrp_first_value start len], Inr ())"
  "proto_tree_add_item t proto_mmrp tvb start len
     = ([Item t proto_mmrp start len], Inr ())"
  "proto_tree_add_item t hf_mmrp_mac tvb start 6
     = (if start + 6 \<le> length tvb then ([Item t hf_mmrp_mac start 6], Inr ())
        else ([], Inl Truncated))"
  "proto_tree_add_item t hf_mmrp_ser_req tvb start 1
     = (if start + 1 \<le> length tvb then ([Item t hf_mmrp_ser_req start 1], Inr ())
        else ([], Inl Truncated))"
  "proto_tree_add_item t hf_mmrp_proto_id tvb start 1
     = (if start + 1 \<le> length tvb then ([Item t hf_mmrp_proto_id start 1], Inr ())
        else ([], Inl Truncated))"
  "proto_tree_add_item t hf_mmrp_attribute_type tvb start 1
     = (if start + 1 \<le> length tvb then ([Item t hf_mmrp_attribute_type start 1], Inr ())
        else ([], Inl Truncated))"
  "proto_tree_add_item t hf_mmrp_attribute_length tvb start 1
     = (if start + 1 \<le> length tvb then ([Item t hf_mmrp_attribute_length start 1], Inr ())
        else ([], Inl Truncated))"
  "proto_tree_add_item t hf_mmrp_end_mark tvb start 2
     = (if start + 2 \<le> length tvb then ([Item t hf_mmrp_end_mark start 2], Inr ())
        else ([], Inl Truncated))"
  by (simp_all add: proto_tree_add_item_def)

lemma vect_attr_body_eq:
  assumes "tvb_get_ntohs tvb (3 + m + v) = Inr h"
  shows "vect_attr_body tvb t l m v offset =
     (vect_attr_head l (3 + m + v) h
        @ (if t = MMRP_ATTRIBUTE_TYPE_MAC then
             Item vect_attr_tree hf_mmrp_first_value (5 + m + v) (uint l)
             # (if 11 + m + v \<le> length tvb then
                  Item first_value_tree hf_mmrp_mac (5 + m + v) 6
                  # fst (dissect_mmrp_three_packed_event tvb (11 + m + v)
                           (h AND MMRP_NUMBER_OF_VALUES_MASK))
                else [])
           else if t = MMRP_ATTRIBUTE_TYPE_SERVICE then
             Item vect_attr_tree hf_mmrp_first_value (5 + m + v) (uint l)
             # (if 6 + m + v \<le> length tvb then
                  Item first_value_tree hf_mmrp_ser_req (5 + m + v) 1
                  # fst (dissect_mmrp_three_packed_event tvb (6 + m + v)
                           (h AND MMRP_NUMBER_OF_VALUES_MASK))
                else [])
           else []),
      case (if t = MMRP_ATTRIBUTE_TYPE_MAC then
              if 11 + m + v \<le> length tvb then
                snd (dissect_mmrp_three_packed_event tvb (11 + m + v)
                       (h AND MMRP_NUMBER_OF_VALUES_MASK))
              else Inl Truncated
            else if t = MMRP_ATTRIBUTE_TYPE_SERVICE then
              if 6 + m + v \<le> length tvb then
                snd (dissect_mmrp_three_packed_event tvb (6 + m + v)
                       (h AND MMRP_NUMBER_OF_VALUES_MASK))
              else Inl Truncated
            else Inr offset) of
        Inl e \<Rightarrow> Inl e
      | Inr offset' \<Rightarrow>
          Inr (v + (2 + unat l + (unat (h AND MMRP_NUMBER_OF_VALUES_MASK) + 2) div 3),
               offset'))"
proof -
  let ?n = "h AND MMRP_NUMBER_OF_VALUES_MASK"
  have off: "MMRP_NUMBER_OF_VALUES_OFFSET + m + v = 3 + m + v"
    "MMRP_VECTOR_ATTRIBUTE_GROUP_OFFSET + m + v = 3 + m + v"
    "MMRP_VECTOR_HEADER_OFFSET + (m + v) = 3 + m + v"
    "MMRP_FIRST_VALUE_GROUP_OFFSET + m + v = 5 + m + v"
    "MMRP_MAC_THREE_PACKED_OFFSET + m + v = 11 + m + v"
    "MMRP_SERVICE_THREE_PACKED_OFFSET + m + v = 6 + m + v"
    by (simp_all add: mmrp_offsets)
  have le: "5 + m + v + 6 \<le> length tvb \<longleftrightarrow> 11 + m + v \<le> length tvb"
    "5 + m + v + 1 \<le> length tvb \<longleftrightarrow> 6 + m + v \<le> length tvb"
    by linarith+
  have c2: "dissect_mmrp_common2 vect_attr_tree tvb (m + v) =
     ([Item vect_attr_tree hf_mmrp_vector_header (3 + m + v) 2,
       Uint vector_header_tree hf_mmrp_leave_all_event (3 + m + v) 2 (unat h div 8192),
       Uint vector_header_tree hf_mmrp_number_of_values (3 + m + v) 2 (unat h mod 8192)],
      Inr ())"
    by (rule dissect_mmrp_common2_eq [of tvb "m + v" h, unfolded off, OF assms])
  have body: "vect_attr_body tvb t l m v offset =
     and_then ([Item attr_list_tree hf_mmrp_vector_attribute (3 + m + v)
                  (vect_attr_len l ?n)], Inr ()) (\<lambda>_.
     and_then (dissect_mmrp_common2 vect_attr_tree tvb (m + v)) (\<lambda>_.
     and_then
       (if t = MMRP_ATTRIBUTE_TYPE_MAC then
          and_then ([Item vect_attr_tree hf_mmrp_first_value (5 + m + v) (uint l)], Inr ())
            (\<lambda>_.
          and_then (if 11 + m + v \<le> length tvb
                    then ([Item first_value_tree hf_mmrp_mac (5 + m + v) 6], Inr ())
                    else ([], Inl Truncated)) (\<lambda>_.
          dissect_mmrp_three_packed_event tvb (11 + m + v) ?n))
        else if t = MMRP_ATTRIBUTE_TYPE_SERVICE then
          and_then ([Item vect_attr_tree hf_mmrp_first_value (5 + m + v) (uint l)], Inr ())
            (\<lambda>_.
          and_then (if 6 + m + v \<le> length tvb
                    then ([Item first_value_tree hf_mmrp_ser_req (5 + m + v) 1], Inr ())
                    else ([], Inl Truncated)) (\<lambda>_.
          dissect_mmrp_three_packed_event tvb (6 + m + v) ?n))
        else returns offset) (\<lambda>offset.
     returns (v + nat (vect_attr_len l ?n), offset))))"
    unfolding vect_attr_body_def off assms proto_tree_add_item_mmrp le
    by (simp only: and_then_simps)
  show ?thesis
  proof (cases "t = MMRP_ATTRIBUTE_TYPE_MAC")
    case True
    then show ?thesis
      unfolding body c2
      by (cases "dissect_mmrp_three_packed_event tvb (11 + m + v) ?n")
        (simp add: and_then_simps vect_attr_head_def nat_vect_attr_len and_then_def
          returns_def split: sum.splits)
  next
    case mac: False
    show ?thesis
    proof (cases "t = MMRP_ATTRIBUTE_TYPE_SERVICE")
      case True
      then show ?thesis
        unfolding body c2 using mac
        by (cases "dissect_mmrp_three_packed_event tvb (6 + m + v) ?n")
          (simp add: and_then_simps vect_attr_head_def nat_vect_attr_len and_then_def
            returns_def split: sum.splits)
    next
      case False
      then show ?thesis
        unfolding body c2 using mac
        by (simp add: and_then_simps vect_attr_head_def nat_vect_attr_len returns_def)
    qed
  qed
qed

section \<open>The loops of dissect_mmrp\<close>

lemma mmrp_offset_values:
  "MMRP_PROTOCOL_VERSION_OFFSET = 0" "MMRP_MESSAGE_GROUP_OFFSET = 1"
  "MMRP_ATTRIBUTE_TYPE_OFFSET = 1" "MMRP_ATTRIBUTE_LENGTH_OFFSET = 2"
  "MMRP_ATTRIBUTE_LIST_GROUP_OFFSET = 3" "MMRP_VECTOR_ATTRIBUTE_GROUP_OFFSET = 3"
  "MMRP_VECTOR_HEADER_OFFSET = 3" "MMRP_LEAVE_ALL_EVENT_OFFSET = 3"
  "MMRP_NUMBER_OF_VALUES_OFFSET = 3" "MMRP_FIRST_VALUE_GROUP_OFFSET = 5"
  "MMRP_SERVICE_THREE_PACKED_OFFSET = 6" "MMRP_MAC_THREE_PACKED_OFFSET = 11"
  by (simp_all add: mmrp_offsets)

lemma vect_attr_loop_unfold:
  "vect_attr_loop tvb t l m v offset =
     (case tvb_get_ntohs tvb (3 + m + v) of
        Inl e \<Rightarrow> ([], Inl e)
      | Inr h \<Rightarrow>
          if h \<noteq> 0 then
            (case vect_attr_body tvb t l m v offset of
               (items, Inl e) \<Rightarrow> (items, Inl e)
             | (items, Inr (v', offset')) \<Rightarrow>
                 (items @ fst (vect_attr_loop tvb t l m v' offset'),
                  snd (vect_attr_loop tvb t l m v' offset')))
          else ([], Inr (v, offset)))"
proof -
  show ?thesis
    by (subst vect_attr_loop.simps)
      (simp add: mmrp_offset_values MMRP_END_MARK_def split: sum.splits prod.splits)
qed

lemma vect_attr_loop_end:
  "tvb_get_ntohs tvb (3 + m + v) = Inr 0 \<Longrightarrow>
   vect_attr_loop tvb t l m v offset = ([], Inr (v, offset))"
  by (subst vect_attr_loop_unfold) simp

lemma vect_attr_loop_truncated:
  "tvb_get_ntohs tvb (3 + m + v) = Inl e \<Longrightarrow>
   vect_attr_loop tvb t l m v offset = ([], Inl e)"
  by (subst vect_attr_loop_unfold) simp

lemma vect_attr_loop_step:
  "tvb_get_ntohs tvb (3 + m + v) = Inr h \<Longrightarrow> h \<noteq> 0 \<Longrightarrow>
   vect_attr_body tvb t l m v offset = (items, Inr (v', offset')) \<Longrightarrow>
   vect_attr_loop tvb t l m v offset =
     (items @ fst (vect_attr_loop tvb t l m v' offset'),
      snd (vect_attr_loop tvb t l m v' offset'))"
  by (subst vect_attr_loop_unfold) simp

lemma vect_attr_loop_abort:
  "tvb_get_ntohs tvb (3 + m + v) = Inr h \<Longrightarrow> h \<noteq> 0 \<Longrightarrow>
   vect_attr_body tvb t l m v offset = (items, Inl e) \<Longrightarrow>
   vect_attr_loop tvb t l m v offset = (items, Inl e)"
  by (subst vect_attr_loop_unfold) simp

lemma vect_attr_loop_success_induct [consumes 1, case_names End_Mark Vector_Attribute]:
  assumes "vect_attr_loop tvb t l m v offset = (items, Inr (v', offset'))"
    and "\<And>v offset. tvb_get_ntohs tvb (3 + m + v) = Inr 0 \<Longrightarrow> P v offset [] v offset"
    and "\<And>v offset h its v1 o1 rest v' offset'.
           tvb_get_ntohs tvb (3 + m + v) = Inr h \<Longrightarrow> h \<noteq> 0 \<Longrightarrow>
           vect_attr_body tvb t l m v offset = (its, Inr (v1, o1)) \<Longrightarrow>
           vect_attr_loop tvb t l m v1 o1 = (rest, Inr (v', offset')) \<Longrightarrow>
           P v1 o1 rest v' offset' \<Longrightarrow> P v offset (its @ rest) v' offset'"
  shows "P v offset items v' offset'"
  using assms
proof (induction tvb t l m v offset arbitrary: items rule: vect_attr_loop.induct)
  case (1 tvb t l m v offset)
  note run = "1.prems"(1) and base = "1.prems"(2) and step = "1.prems"(3)
  show ?case
  proof (cases "tvb_get_ntohs tvb (3 + m + v)")
    case (Inl e)
    with run show ?thesis
      by (simp add: vect_attr_loop_truncated)
  next
    case (Inr h)
    show ?thesis
    proof (cases "h = 0")
      case True
      with Inr have e: "tvb_get_ntohs tvb (3 + m + v) = Inr 0"
        by simp
      from run have "items = []" "v' = v" "offset' = offset"
        by (simp_all add: vect_attr_loop_end [OF e])
      with base [OF e] show ?thesis
        by simp
    next
      case False
      obtain its r where body: "vect_attr_body tvb t l m v offset = (its, r)"
        by (cases "vect_attr_body tvb t l m v offset")
      show ?thesis
      proof (cases r)
        case (Inl e)
        with Inr False body run show ?thesis
          by (simp add: vect_attr_loop_abort)
      next
        case r: (Inr p)
        obtain v1 o1 where p: "p = (v1, o1)"
          by (cases p)
        obtain rest where rest: "vect_attr_loop tvb t l m v1 o1 = (rest, Inr (v', offset'))"
          and items: "items = its @ rest"
          using run vect_attr_loop_step [OF Inr False body [unfolded r p]]
          by (cases "vect_attr_loop tvb t l m v1 o1") auto
        have hdr: "tvb_get_ntohs tvb (MMRP_VECTOR_HEADER_OFFSET + m + v) = Inr h"
          unfolding mmrp_offset_values by (rule Inr)
        have "h \<noteq> MMRP_END_MARK"
          using False by (simp add: MMRP_END_MARK_def)
        from "1.IH" [OF hdr this body [symmetric] r p [symmetric] rest base step]
        have "P v1 o1 rest v' offset'" .
        from step [OF Inr False body [unfolded r p] rest this]
        show ?thesis
          by (simp only: items)
      qed
    qed
  qed
qed

lemma message_body_eq:
  assumes "m + 3 \<le> length tvb"
  shows "message_body tvb m offset =
     (case vect_attr_loop tvb (tvb ! (1 + m)) (tvb ! (2 + m)) m 0 offset of
        (its, Inl e) \<Rightarrow> (message_head tvb m @ its, Inl e)
      | (its, Inr (v, offset')) \<Rightarrow>
          if offset' + 2 \<le> length tvb then
            (message_head tvb m @ its @ [Item attr_list_tree hf_mmrp_end_mark offset' 2],
             Inr (m + (v + 2 + 2), offset'))
          else (message_head tvb m @ its, Inl Truncated))"
proof -
  have rd: "tvb_get_guint8 tvb (1 + m) = Inr (tvb ! (1 + m))"
    "tvb_get_guint8 tvb (2 + m) = Inr (tvb ! (2 + m))"
    using assms by (simp_all add: tvb_get_guint8_def)
  have le: "1 + m + 1 \<le> length tvb" "2 + m + 1 \<le> length tvb"
    using assms by simp_all
  obtain its r where loop:
    "vect_attr_loop tvb (tvb ! (1 + m)) (tvb ! (2 + m)) m 0 offset = (its, r)"
    by (cases "vect_attr_loop tvb (tvb ! (1 + m)) (tvb ! (2 + m)) m 0 offset")
  show ?thesis
    using rd loop le
    by (cases r)
      (auto simp: message_body_def mmrp_offset_values dissect_mmrp_common1_def
        proto_tree_add_item_mmrp proto_item_append_text_def and_then_simps
        message_head_def returns_def)
qed

lemma message_loop_unfold:
  "message_loop tvb m offset =
     (case tvb_get_ntohs tvb (1 + m) of
        Inl e \<Rightarrow> ([], Inl e)
      | Inr h \<Rightarrow>
          if h \<noteq> 0 then
            (case message_body tvb m offset of
               (items, Inl e) \<Rightarrow> (items, Inl e)
             | (items, Inr (m', offset')) \<Rightarrow>
                 (items @ fst (message_loop tvb m' offset'),
                  snd (message_loop tvb m' offset')))
          else ([], Inr (m, offset)))"
  by (subst message_loop.simps)
    (simp add: mmrp_offset_values MMRP_END_MARK_def split: sum.splits prod.splits)

lemma message_loop_end:
  "tvb_get_ntohs tvb (1 + m) = Inr 0 \<Longrightarrow>
   message_loop tvb m offset = ([], Inr (m, offset))"
  by (subst message_loop_unfold) simp

lemma message_loop_truncated:
  "tvb_get_ntohs tvb (1 + m) = Inl e \<Longrightarrow> message_loop tvb m offset = ([], Inl e)"
  by (subst message_loop_unfold) simp

lemma message_loop_step:
  "tvb_get_ntohs tvb (1 + m) = Inr h \<Longrightarrow> h \<noteq> 0 \<Longrightarrow>
   message_body tvb m offset = (items, Inr (m', offset')) \<Longrightarrow>
   message_loop tvb m offset =
     (items @ fst (message_loop tvb m' offset'), snd (message_loop tvb m' offset'))"
  by (subst message_loop_unfold) simp

lemma message_loop_abort:
  "tvb_get_ntohs tvb (1 + m) = Inr h \<Longrightarrow> h \<noteq> 0 \<Longrightarrow>
   message_body tvb m offset = (items, Inl e) \<Longrightarrow>
   message_loop tvb m offset = (items, Inl e)"
  by (subst message_loop_unfold) simp

lemma message_loop_success_induct [consumes 1, case_names End_Mark Message]:
  assumes "message_loop tvb m offset = (items, Inr (m', offset'))"
    and "\<And>m offset. tvb_get_ntohs tvb (1 + m) = Inr 0 \<Longrightarrow> P m offset [] m offset"
    and "\<And>m offset h its m1 o1 rest m' offset'.
           tvb_get_ntohs tvb (1 + m) = Inr h \<Longrightarrow> h \<noteq> 0 \<Longrightarrow>
           message_body tvb m offset = (its, Inr (m1, o1)) \<Longrightarrow>
           message_loop tvb m1 o1 = (rest, Inr (m', offset')) \<Longrightarrow>
           P m1 o1 rest m' offset' \<Longrightarrow> P m offset (its @ rest) m' offset'"
  shows "P m offset items m' offset'"
  using assms
proof (induction tvb m offset arbitrary: items rule: message_loop.induct)
  case (1 tvb m offset)
  note run = "1.prems"(1) and base = "1.prems"(2) and step = "1.prems"(3)
  show ?case
  proof (cases "tvb_get_ntohs tvb (1 + m)")
    case (Inl e)
    with run show ?thesis
      by (simp add: message_loop_truncated)
  next
    case (Inr h)
    show ?thesis
    proof (cases "h = 0")
      case True
      with Inr have e: "tvb_get_ntohs tvb (1 + m) = Inr 0"
        by simp
      from run have "items = []" "m' = m" "offset' = offset"
        by (simp_all add: message_loop_end [OF e])
      with base [OF e] show ?thesis
        by simp
    next
      case False
      obtain its r where body: "message_body tvb m offset = (its, r)"
        by (cases "message_body tvb m offset")
      show ?thesis
      proof (cases r)
        case (Inl e)
        with Inr False body run show ?thesis
          by (simp add: message_loop_abort)
      next
        case r: (Inr p)
        obtain m1 o1 where p: "p = (m1, o1)"
          by (cases p)
        obtain rest where rest: "message_loop tvb m1 o1 = (rest, Inr (m', offset'))"
          and items: "items = its @ rest"
          using run message_loop_step [OF Inr False body [unfolded r p]]
          by (cases "message_loop tvb m1 o1") auto
        have hdr: "tvb_get_ntohs tvb (MMRP_ATTRIBUTE_TYPE_OFFSET + m) = Inr h"
          unfolding mmrp_offset_values by (rule Inr)
        have "h \<noteq> MMRP_END_MARK"
          using False by (simp add: MMRP_END_MARK_def)
        from "1.IH" [OF hdr this body [symmetric] r p [symmetric] rest base step]
        have "P m1 o1 rest m' offset'" .
        from step [OF Inr False body [unfolded r p] rest this]
        show ?thesis
          by (simp only: items)
      qed
    qed
  qed
qed

lemma dissect_mmrp_eq:
  "dissect_mmrp tvb True =
     (if tvb = [] then (take 3 dissect_head, Inl Truncated)
      else
        case message_loop tvb 0 0 of
          (its, Inl e) \<Rightarrow> (dissect_head @ its, Inl e)
        | (its, Inr (m, offset)) \<Rightarrow>
            if offset + 4 \<le> length tvb then
              (dissect_head @ its @ [Item mmrp_tree hf_mmrp_end_mark (offset + 2) 2],
               Inr (length tvb))
            else (dissect_head @ its, Inl Truncated))"
  "dissect_mmrp tvb False = (take 2 dissect_head, Inr (length tvb))"
proof -
  obtain its r where loop: "message_loop tvb 0 0 = (its, r)"
    by (cases "message_loop tvb 0 0")
  have le: "0 + 1 \<le> length tvb \<longleftrightarrow> tvb \<noteq> []"
    "Suc 0 \<le> length tvb \<longleftrightarrow> tvb \<noteq> []"
    by (cases tvb; simp)+
  have le4: "\<And>k. k + 2 + 2 \<le> length tvb \<longleftrightarrow> k + 4 \<le> length tvb"
    by linarith
  show "dissect_mmrp tvb True =
     (if tvb = [] then (take 3 dissect_head, Inl Truncated)
      else
        case message_loop tvb 0 0 of
          (its, Inl e) \<Rightarrow> (dissect_head @ its, Inl e)
        | (its, Inr (m, offset)) \<Rightarrow>
            if offset + 4 \<le> length tvb then
              (dissect_head @ its @ [Item mmrp_tree hf_mmrp_end_mark (offset + 2) 2],
               Inr (length tvb))
            else (dissect_head @ its, Inl Truncated))"
    using loop
    by (cases r)
      (auto simp: dissect_mmrp_def col_set_str_def proto_tree_add_item_mmrp le le4
        mmrp_offset_values tvb_captured_length_def and_then_simps dissect_head_def
        returns_def)
  show "dissect_mmrp tvb False = (take 2 dissect_head, Inr (length tvb))"
    unfolding dissect_mmrp_def col_set_str_def tvb_captured_length_def
    by (simp add: and_then_simps dissect_head_def returns_def)
qed

lemma tvb_get_ntohs_Inr_length: "tvb_get_ntohs tvb k = Inr h \<Longrightarrow> k + 2 \<le> length tvb"
  by (simp add: tvb_get_ntohs_def split: if_splits)

lemma tvb_get_ntohs_error: "tvb_get_ntohs tvb k = Inl e \<Longrightarrow> e = Truncated"
  by (simp add: tvb_get_ntohs_def split: if_splits)

lemma message_body_head:
  assumes "tvb_get_ntohs tvb (1 + m) = Inr h"
  shows "\<exists>rest. fst (message_body tvb m offset) = message_head tvb m @ rest"
proof -
  from tvb_get_ntohs_Inr_length [OF assms] have "m + 3 \<le> length tvb"
    by simp
  then show ?thesis
    by (auto simp: message_body_eq split: prod.splits sum.splits)
qed

lemma vect_attr_body_head:
  assumes "tvb_get_ntohs tvb (3 + m + v) = Inr h"
  shows "\<exists>rest. fst (vect_attr_body tvb t l m v offset) = vect_attr_head l (3 + m + v) h @ rest"
  by (simp add: vect_attr_body_eq [OF assms])

lemma message_loop_ends_iff:
  "message_loop tvb m offset = ([], Inr (m, offset))
     \<longleftrightarrow> tvb_get_ntohs tvb (1 + m) = Inr MMRP_END_MARK"
proof (cases "tvb_get_ntohs tvb (1 + m)")
  case (Inl e)
  then show ?thesis
    by (simp add: message_loop_truncated)
next
  case (Inr h)
  show ?thesis
  proof (cases "h = 0")
    case True
    with Inr show ?thesis
      by (simp add: message_loop_end MMRP_END_MARK_def)
  next
    case False
    from message_body_head [OF Inr] obtain rest where
      "fst (message_body tvb m offset) = message_head tvb m @ rest" ..
    then have "fst (message_loop tvb m offset) \<noteq> []"
      using Inr False
      by (subst message_loop_unfold)
        (auto simp: message_head_def split: prod.splits sum.splits)
    with Inr False show ?thesis
      by (auto simp: MMRP_END_MARK_def)
  qed
qed

lemma vect_attr_loop_ends_iff:
  "vect_attr_loop tvb t l m v offset = ([], Inr (v, offset))
     \<longleftrightarrow> tvb_get_ntohs tvb (3 + m + v) = Inr MMRP_END_MARK"
proof (cases "tvb_get_ntohs tvb (3 + m + v)")
  case (Inl e)
  then show ?thesis
    by (simp add: vect_attr_loop_truncated)
next
  case (Inr h)
  show ?thesis
  proof (cases "h = 0")
    case True
    with Inr show ?thesis
      by (simp add: vect_attr_loop_end MMRP_END_MARK_def)
  next
    case False
    from vect_attr_body_head [OF Inr] obtain rest where
      "fst (vect_attr_body tvb t l m v offset) = vect_attr_head l (3 + m + v) h @ rest" ..
    then have "fst (vect_attr_loop tvb t l m v offset) \<noteq> []"
      using Inr False
      by (subst vect_attr_loop_unfold)
        (auto simp: vect_attr_head_def split: prod.splits sum.splits)
    with Inr False show ?thesis
      by (auto simp: MMRP_END_MARK_def)
  qed
qed

lemma message_loop_commits:
  assumes "tvb_get_ntohs tvb (1 + m) = Inr h" and "h \<noteq> MMRP_END_MARK"
  shows "\<exists>rest. fst (message_loop tvb m offset) = message_head tvb m @ rest"
proof -
  from message_body_head [OF assms(1)] obtain rest where
    "fst (message_body tvb m offset) = message_head tvb m @ rest" ..
  then show ?thesis
    using assms
    by (subst message_loop_unfold)
      (auto simp: MMRP_END_MARK_def split: prod.splits sum.splits)
qed

lemma vect_attr_loop_commits:
  assumes "tvb_get_ntohs tvb (3 + m + v) = Inr h" and "h \<noteq> MMRP_END_MARK"
  shows "\<exists>rest. fst (vect_attr_loop tvb t l m v offset)
                  = vect_attr_head l (3 + m + v) h @ rest"
proof -
  from vect_attr_body_head [OF assms(1)] obtain rest where
    "fst (vect_attr_body tvb t l m v offset) = vect_attr_head l (3 + m + v) h @ rest" ..
  then show ?thesis
    using assms
    by (subst vect_attr_loop_unfold)
      (auto simp: MMRP_END_MARK_def split: prod.splits sum.splits)
qed

lemma vect_attr_loop_final:
  assumes "vect_attr_loop tvb t l m v offset = (items, Inr (v', offset'))"
  shows "v \<le> v' \<and> tvb_get_ntohs tvb (3 + m + v') = Inr MMRP_END_MARK"
  using assms
proof (induction rule: vect_attr_loop_success_induct)
  case (End_Mark v offset)
  then show ?case
    by (simp add: MMRP_END_MARK_def)
next
  case (Vector_Attribute v offset h its v1 o1 rest v' offset')
  from vect_attr_body_advance [OF Vector_Attribute(3)] Vector_Attribute(5)
  show ?case
    by simp
qed

lemma message_loop_final:
  assumes "message_loop tvb m offset = (items, Inr (m', offset'))"
  shows "m \<le> m' \<and> tvb_get_ntohs tvb (1 + m') = Inr MMRP_END_MARK"
  using assms
proof (induction rule: message_loop_success_induct)
  case (End_Mark m offset)
  then show ?case
    by (simp add: MMRP_END_MARK_def)
next
  case (Message m offset h its m1 o1 rest m' offset')
  from message_body_advance [OF Message(3)] Message(5)
  show ?case
    by simp
qed

lemma vect_attr_body_result:
  assumes "tvb_get_ntohs tvb (3 + m + v) = Inr h"
    and "snd (vect_attr_body tvb t l m v offset) = Inr (v', offset')"
  shows "v' = v + (2 + unat l + (unat (h AND MMRP_NUMBER_OF_VALUES_MASK) + 2) div 3)"
    and "offset' =
          (if t = MMRP_ATTRIBUTE_TYPE_MAC
           then 11 + m + v + (unat (h AND MMRP_NUMBER_OF_VALUES_MASK) + 2) div 3
           else if t = MMRP_ATTRIBUTE_TYPE_SERVICE
           then 6 + m + v + (unat (h AND MMRP_NUMBER_OF_VALUES_MASK) + 2) div 3
           else offset)"
  using assms(2) unfolding vect_attr_body_eq [OF assms(1)]
  by (auto simp: dissect_mmrp_three_packed_event_eq split: sum.splits if_splits)

lemma message_body_success_length:
  assumes "snd (message_body tvb m offset) = Inr r"
  shows "m + 3 \<le> length tvb"
proof (rule ccontr)
  assume "\<not> m + 3 \<le> length tvb"
  then have "tvb_get_guint8 tvb (1 + m) = Inl Truncated
             \<or> tvb_get_guint8 tvb (2 + m) = Inl Truncated"
    by (auto simp: tvb_get_guint8_def)
  then have "\<exists>e. snd (message_body tvb m offset) = Inl e"
    by (cases "tvb_get_guint8 tvb (1 + m)")
      (auto simp: message_body_def mmrp_offset_values and_then_simps)
  with assms show False
    by auto
qed

lemma vect_attr_loop_offset:
  assumes "vect_attr_loop tvb t l m v offset = (items, Inr (v', offset'))"
    and "t = MMRP_ATTRIBUTE_TYPE_MAC \<and> unat l = 6
         \<or> t = MMRP_ATTRIBUTE_TYPE_SERVICE \<and> unat l = 1"
  shows "v' = v \<and> offset' = offset \<and> items = [] \<or> v < v' \<and> offset' = 3 + m + v'"
  using assms(1)
proof (induction rule: vect_attr_loop_success_induct)
  case (End_Mark v offset)
  then show ?case
    by simp
next
  case (Vector_Attribute v offset h its v1 o1 rest v' offset')
  have ne: "MMRP_ATTRIBUTE_TYPE_SERVICE \<noteq> MMRP_ATTRIBUTE_TYPE_MAC"
    by (simp add: MMRP_ATTRIBUTE_TYPE_SERVICE_def MMRP_ATTRIBUTE_TYPE_MAC_def)
  from Vector_Attribute(3) have "snd (vect_attr_body tvb t l m v offset) = Inr (v1, o1)"
    by simp
  from vect_attr_body_result [OF Vector_Attribute(1) this] assms(2) ne
  have "v < v1" "o1 = 3 + m + v1"
    by auto
  with Vector_Attribute(5) show ?case
    by auto
qed

lemma message_body_last:
  assumes "message_body tvb m offset = (items, Inr (m', offset'))"
  shows "last items = Item attr_list_tree hf_mmrp_end_mark offset' 2"
proof -
  from assms have "m + 3 \<le> length tvb"
    by (intro message_body_success_length [of tvb m offset "(m', offset')"]) simp
  from assms show ?thesis
    unfolding message_body_eq [OF \<open>m + 3 \<le> length tvb\<close>]
    by (auto split: prod.splits sum.splits if_splits)
qed

lemma tvb_get_guint8_error: "tvb_get_guint8 tvb k = Inl e \<Longrightarrow> e = Truncated"
  by (simp add: tvb_get_guint8_def split: if_splits)

lemma dissect_mmrp_three_packed_event_error:
  "snd (dissect_mmrp_three_packed_event tvb start n) = Inl e \<Longrightarrow> e = Truncated"
  by (simp add: dissect_mmrp_three_packed_event_eq split: if_splits)

lemma vect_attr_body_truncated:
  "tvb_get_ntohs tvb (3 + m + v) = Inl e \<Longrightarrow>
   vect_attr_body tvb t l m v offset = ([], Inl e)"
  by (simp add: vect_attr_body_def mmrp_offset_values and_then_simps)

lemma vect_attr_body_error:
  assumes "snd (vect_attr_body tvb t l m v offset) = Inl e"
  shows "e = Truncated"
proof (cases "tvb_get_ntohs tvb (3 + m + v)")
  case (Inl e')
  with assms tvb_get_ntohs_error [OF Inl] show ?thesis
    by (simp add: vect_attr_body_truncated)
next
  case (Inr h)
  from assms show ?thesis
    unfolding vect_attr_body_eq [OF Inr]
    by (auto split: sum.splits if_splits dest: dissect_mmrp_three_packed_event_error)
qed

lemma vect_attr_loop_error:
  "snd (vect_attr_loop tvb t l m v offset) = Inl e \<Longrightarrow> e = Truncated"
proof (induction tvb t l m v offset rule: vect_attr_loop.induct)
  case (1 tvb t l m v offset)
  show ?case
  proof (cases "tvb_get_ntohs tvb (3 + m + v)")
    case (Inl e')
    with "1.prems" tvb_get_ntohs_error [OF Inl] show ?thesis
      by (simp add: vect_attr_loop_truncated)
  next
    case (Inr h)
    show ?thesis
    proof (cases "h = 0")
      case True
      with Inr "1.prems" show ?thesis
        by (simp add: vect_attr_loop_end)
    next
      case False
      obtain its r where body: "vect_attr_body tvb t l m v offset = (its, r)"
        by (cases "vect_attr_body tvb t l m v offset")
      show ?thesis
      proof (cases r)
        case (Inl e')
        with "1.prems" vect_attr_loop_abort [OF Inr False body [unfolded Inl]]
          vect_attr_body_error [of tvb t l m v offset e'] body
        show ?thesis
          by simp
      next
        case r: (Inr p)
        obtain v1 o1 where p: "p = (v1, o1)"
          by (cases p)
        have hdr: "tvb_get_ntohs tvb (MMRP_VECTOR_HEADER_OFFSET + m + v) = Inr h"
          unfolding mmrp_offset_values by (rule Inr)
        have ne: "h \<noteq> MMRP_END_MARK"
          using False by (simp add: MMRP_END_MARK_def)
        from "1.prems" vect_attr_loop_step [OF Inr False body [unfolded r p]]
        have "snd (vect_attr_loop tvb t l m v1 o1) = Inl e"
          by simp
        from "1.IH" [OF hdr ne body [symmetric] r p [symmetric] this]
        show ?thesis .
      qed
    qed
  qed
qed

lemma message_body_error:
  assumes "snd (message_body tvb m offset) = Inl e"
  shows "e = Truncated"
proof (cases "m + 3 \<le> length tvb")
  case True
  obtain its r where
    loop: "vect_attr_loop tvb (tvb ! (1 + m)) (tvb ! (2 + m)) m 0 offset = (its, r)"
    by (cases "vect_attr_loop tvb (tvb ! (1 + m)) (tvb ! (2 + m)) m 0 offset")
  from assms have "r = Inl e \<or> e = Truncated"
    unfolding message_body_eq [OF True] loop by (cases r) (auto split: if_splits)
  with loop vect_attr_loop_error [of tvb "tvb ! (1 + m)" "tvb ! (2 + m)" m 0 offset e]
  show ?thesis
    by auto
next
  case False
  show ?thesis
  proof (cases "tvb_get_guint8 tvb (1 + m)")
    case (Inl e')
    with assms tvb_get_guint8_error [OF Inl] show ?thesis
      by (simp add: message_body_def mmrp_offset_values and_then_simps)
  next
    case (Inr t)
    with False have "tvb_get_guint8 tvb (2 + m) = Inl Truncated"
      by (auto simp: tvb_get_guint8_def split: if_splits)
    with Inr assms show ?thesis
      by (simp add: message_body_def mmrp_offset_values and_then_simps)
  qed
qed

lemma message_loop_error:
  "snd (message_loop tvb m offset) = Inl e \<Longrightarrow> e = Truncated"
proof (induction tvb m offset rule: message_loop.induct)
  case (1 tvb m offset)
  show ?case
  proof (cases "tvb_get_ntohs tvb (1 + m)")
    case (Inl e')
    with "1.prems" tvb_get_ntohs_error [OF Inl] show ?thesis
      by (simp add: message_loop_truncated)
  next
    case (Inr h)
    show ?thesis
    proof (cases "h = 0")
      case True
      with Inr "1.prems" show ?thesis
        by (simp add: message_loop_end)
    next
      case False
      obtain its r where body: "message_body tvb m offset = (its, r)"
        by (cases "message_body tvb m offset")
      show ?thesis
      proof (cases r)
        case (Inl e')
        with "1.prems" message_loop_abort [OF Inr False body [unfolded Inl]]
          message_body_error [of tvb m offset e'] body
        show ?thesis
          by simp
      next
        case r: (Inr p)
        obtain m1 o1 where p: "p = (m1, o1)"
          by (cases p)
        have hdr: "tvb_get_ntohs tvb (MMRP_ATTRIBUTE_TYPE_OFFSET + m) = Inr h"
          unfolding mmrp_offset_values by (rule Inr)
        have ne: "h \<noteq> MMRP_END_MARK"
          using False by (simp add: MMRP_END_MARK_def)
        from "1.prems" message_loop_step [OF Inr False body [unfolded r p]]
        have "snd (message_loop tvb m1 o1) = Inl e"
          by simp
        from "1.IH" [OF hdr ne body [symmetric] r p [symmetric] this]
        show ?thesis .
      qed
    qed
  qed
qed

lemma dissect_mmrp_error:
  assumes "snd (dissect_mmrp tvb tree') = Inl e"
  shows "e = Truncated"
proof (cases tree')
  case True
  obtain its r where loop: "message_loop tvb 0 0 = (its, r)"
    by (cases "message_loop tvb 0 0")
  from assms True have "snd (dissect_mmrp tvb True) = Inl e"
    by simp
  then have "r = Inl e \<or> e = Truncated"
    unfolding dissect_mmrp_eq loop by (cases r) (auto split: if_splits)
  with loop message_loop_error [of tvb 0 0 e] show ?thesis
    by auto
next
  case False
  with assms show ?thesis
    by (simp add: dissect_mmrp_eq)
qed

lemma vect_attr_body_extent:
  assumes "tvb_get_ntohs tvb (3 + m + v) = Inr h"
    and "vect_attr_body tvb t l m v offset = (its, Inr (v1, o1))"
    and "Item attr_list_tree hf_mmrp_vector_attribute start len \<in> set its"
  shows "start = 3 + m + v \<and> v1 = v + nat len"
proof -
  from assms(2) have its: "its = fst (vect_attr_body tvb t l m v offset)"
    and snd: "snd (vect_attr_body tvb t l m v offset) = Inr (v1, o1)"
    by simp_all
  from assms(3) have "start = 3 + m + v
      \<and> len = vect_attr_len l (h AND MMRP_NUMBER_OF_VALUES_MASK)"
    unfolding its vect_attr_body_eq [OF assms(1)]
    by (auto simp: vect_attr_head_def dissect_mmrp_three_packed_event_eq
        packed_event_item_def split: if_splits)
  with vect_attr_body_result(1) [OF assms(1) snd] show ?thesis
    by (simp add: nat_vect_attr_len)
qed

lemma vect_attr_loop_extent:
  assumes "vect_attr_loop tvb t l m v offset = (items, Inr (v', offset'))"
  shows "\<forall>start len. Item attr_list_tree hf_mmrp_vector_attribute start len \<in> set items
           \<longrightarrow> start + nat len \<le> 3 + m + v'"
  using assms
proof (induction rule: vect_attr_loop_success_induct)
  case (End_Mark v offset)
  then show ?case
    by simp
next
  case (Vector_Attribute v offset h its v1 o1 rest v' offset')
  from vect_attr_loop_final [OF Vector_Attribute(4)] have "v1 \<le> v'"
    by simp
  with vect_attr_body_extent [OF Vector_Attribute(1) Vector_Attribute(3)]
    Vector_Attribute(5)
  show ?case
    by fastforce
qed

lemma message_body_extent:
  assumes "message_body tvb m offset = (items, Inr (m', offset'))"
    and "Item attr_list_tree hf_mmrp_vector_attribute start len \<in> set items"
  shows "start + nat len + 1 \<le> m'"
proof -
  from assms(1) have len: "m + 3 \<le> length tvb"
    by (intro message_body_success_length [of tvb m offset "(m', offset')"]) simp
  from assms(1) obtain its v where
    loop: "vect_attr_loop tvb (tvb ! (1 + m)) (tvb ! (2 + m)) m 0 offset
             = (its, Inr (v, offset'))"
    and m': "m' = m + (v + 2 + 2)"
    and items: "items = message_head tvb m @ its
                          @ [Item attr_list_tree hf_mmrp_end_mark offset' 2]"
    unfolding message_body_eq [OF len]
    by (auto split: prod.splits sum.splits if_splits)
  from assms(2) have "Item attr_list_tree hf_mmrp_vector_attribute start len \<in> set its"
    unfolding items by (auto simp: message_head_def)
  with vect_attr_loop_extent [OF loop] m' show ?thesis
    by fastforce
qed

lemma message_loop_extent:
  assumes "message_loop tvb m offset = (items, Inr (m', offset'))"
  shows "\<forall>start len. Item attr_list_tree hf_mmrp_vector_attribute start len \<in> set items
           \<longrightarrow> start + nat len + 1 \<le> m'"
  using assms
proof (induction rule: message_loop_success_induct)
  case (End_Mark m offset)
  then show ?case
    by simp
next
  case (Message m offset h its m1 o1 rest m' offset')
  from message_loop_final [OF Message(4)] have "m1 \<le> m'"
    by simp
  with message_body_extent [OF Message(3)] Message(5)
  show ?case
    by fastforce
qed

lemma dissect_mmrp_extent:
  assumes "snd (dissect_mmrp tvb tree') = Inr r"
    and "Item attr_list_tree hf_mmrp_vector_attribute start len
           \<in> set (fst (dissect_mmrp tvb tree'))"
  shows "start + nat len + 4 \<le> length tvb"
proof (cases tree')
  case False
  with assms(2) show ?thesis
    by (simp add: dissect_mmrp_eq dissect_head_def)
next
  case True
  obtain its r' where loop: "message_loop tvb 0 0 = (its, r')"
    by (cases "message_loop tvb 0 0")
  from assms(1) True have "snd (dissect_mmrp tvb True) = Inr r"
    by simp
  then obtain m' o' where r': "r' = Inr (m', o')"
    unfolding dissect_mmrp_eq loop by (cases r') (auto split: if_splits)
  from assms(2) True
  have "Item attr_list_tree hf_mmrp_vector_attribute start len \<in> set its"
    by (auto simp: dissect_mmrp_eq loop r' dissect_head_def split: if_splits)
  with message_loop_extent [OF loop [unfolded r']]
  have "start + nat len + 1 \<le> m'"
    by simp
  moreover from message_loop_final [OF loop [unfolded r']]
    have "1 + m' + 2 \<le> length tvb"
    by (auto dest: tvb_get_ntohs_Inr_length)
  ultimately show ?thesis
    by simp
qed

lemma length_dissect_mmrp_three_packed_event:
  "length (fst (dissect_mmrp_three_packed_event tvb start n))
     = min (unat n) (3 * (length tvb - start))"
  by (simp add: dissect_mmrp_three_packed_event_eq)

lemma vect_attr_body_items:
  assumes "tvb_get_ntohs tvb (3 + m + v) = Inr h"
  shows "length (fst (vect_attr_body tvb t l m v offset))
           \<le> 6 + min (unat (h AND MMRP_NUMBER_OF_VALUES_MASK))
                    (3 * (length tvb - (6 + m + v)))"
proof -
  let ?n = "unat (h AND MMRP_NUMBER_OF_VALUES_MASK)"
  have "min ?n (3 * (length tvb - (11 + m + v))) \<le> min ?n (3 * (length tvb - (6 + m + v)))"
    by (rule min.mono) simp_all
  then show ?thesis
    unfolding vect_attr_body_eq [OF assms]
    by (simp add: vect_attr_head_def length_dissect_mmrp_three_packed_event)
qed

lemma le_three_thirds: "(k :: nat) \<le> 3 * ((k + 2) div 3)"
  by linarith

lemma vect_attr_body_items_success:
  assumes "tvb_get_ntohs tvb (3 + m + v) = Inr h"
    and "vect_attr_body tvb t l m v offset = (its, Inr (v1, o1))"
  shows "length its \<le> 3 * (v1 - v)"
proof -
  let ?n = "unat (h AND MMRP_NUMBER_OF_VALUES_MASK)"
  from assms(2) have its: "its = fst (vect_attr_body tvb t l m v offset)"
    and snd: "snd (vect_attr_body tvb t l m v offset) = Inr (v1, o1)"
    by simp_all
  from vect_attr_body_result(1) [OF assms(1) snd]
  have v1: "v1 = v + (2 + unat l + (?n + 2) div 3)" .
  from vect_attr_body_items [OF assms(1), of t l offset] have "length its \<le> 6 + ?n"
    unfolding its by simp
  also have "\<dots> \<le> 3 * (2 + (?n + 2) div 3)"
    using le_three_thirds [of ?n] by simp
  also have "\<dots> \<le> 3 * (v1 - v)"
    unfolding v1 by simp
  finally show ?thesis .
qed

lemma vect_attr_loop_items_success:
  assumes "vect_attr_loop tvb t l m v offset = (items, Inr (v', offset'))"
  shows "length items \<le> 3 * (v' - v)"
  using assms
proof (induction rule: vect_attr_loop_success_induct)
  case (End_Mark v offset)
  then show ?case
    by simp
next
  case (Vector_Attribute v offset h its v1 o1 rest v' offset')
  from vect_attr_loop_final [OF Vector_Attribute(4)] have "v1 \<le> v'"
    by simp
  moreover from vect_attr_body_advance [OF Vector_Attribute(3)] have "v \<le> v1"
    by simp
  moreover note vect_attr_body_items_success [OF Vector_Attribute(1) Vector_Attribute(3)]
    Vector_Attribute(5)
  ultimately show ?case
    by simp
qed

lemma vect_attr_loop_items:
  "length (fst (vect_attr_loop tvb t l m v offset)) \<le> 3 * (length tvb - (m + v))"
proof (induction tvb t l m v offset rule: vect_attr_loop.induct)
  case (1 tvb t l m v offset)
  show ?case
  proof (cases "tvb_get_ntohs tvb (3 + m + v)")
    case (Inl e')
    then show ?thesis
      by (simp add: vect_attr_loop_truncated)
  next
    case (Inr h)
    from tvb_get_ntohs_Inr_length [OF Inr] have inb: "m + v + 5 \<le> length tvb"
      by simp
    let ?n = "unat (h AND MMRP_NUMBER_OF_VALUES_MASK)"
    show ?thesis
    proof (cases "h = 0")
      case True
      with Inr show ?thesis
        by (simp add: vect_attr_loop_end)
    next
      case False
      obtain its r where body: "vect_attr_body tvb t l m v offset = (its, r)"
        by (cases "vect_attr_body tvb t l m v offset")
      from vect_attr_body_items [OF Inr, of t l offset] body
      have "length its \<le> 6 + 3 * (length tvb - (6 + m + v))"
        by simp
      with inb have short: "length its \<le> 3 * (length tvb - (m + v))"
        by linarith
      show ?thesis
      proof (cases r)
        case (Inl e')
        with short vect_attr_loop_abort [OF Inr False body [unfolded Inl]]
        show ?thesis
          by simp
      next
        case r: (Inr p)
        obtain v1 o1 where p: "p = (v1, o1)"
          by (cases p)
        note body' = body [unfolded r p]
        have hdr: "tvb_get_ntohs tvb (MMRP_VECTOR_HEADER_OFFSET + m + v) = Inr h"
          unfolding mmrp_offset_values by (rule Inr)
        have ne: "h \<noteq> MMRP_END_MARK"
          using False by (simp add: MMRP_END_MARK_def)
        from "1.IH" [OF hdr ne body [symmetric] r p [symmetric]]
        have IH: "length (fst (vect_attr_loop tvb t l m v1 o1))
                    \<le> 3 * (length tvb - (m + v1))" .
        from vect_attr_body_advance [OF body'] have adv: "v + 2 \<le> v1" .
        have "length its + length (fst (vect_attr_loop tvb t l m v1 o1))
                \<le> 3 * (length tvb - (m + v))"
        proof (cases "m + v1 \<le> length tvb")
          case True
          with vect_attr_body_items_success [OF Inr body'] IH adv show ?thesis
            by linarith
        next
          case False
          with IH have "length (fst (vect_attr_loop tvb t l m v1 o1)) = 0"
            by simp
          with short show ?thesis
            by simp
        qed
        then show ?thesis
          by (simp add: vect_attr_loop_step [OF Inr False body'])
      qed
    qed
  qed
qed

lemma message_body_items_success:
  assumes "message_body tvb m offset = (items, Inr (m', offset'))"
  shows "length items \<le> 3 * (m' - m) \<and> m' < length tvb"
proof -
  from assms have len: "m + 3 \<le> length tvb"
    by (intro message_body_success_length [of tvb m offset "(m', offset')"]) simp
  from assms obtain its v where
    loop: "vect_attr_loop tvb (tvb ! (1 + m)) (tvb ! (2 + m)) m 0 offset
             = (its, Inr (v, offset'))"
    and m': "m' = m + (v + 2 + 2)"
    and items: "items = message_head tvb m @ its
                          @ [Item attr_list_tree hf_mmrp_end_mark offset' 2]"
    unfolding message_body_eq [OF len]
    by (auto split: prod.splits sum.splits if_splits)
  from vect_attr_loop_final [OF loop] have "3 + m + v + 2 \<le> length tvb"
    by (auto dest: tvb_get_ntohs_Inr_length)
  with vect_attr_loop_items_success [OF loop] m' show ?thesis
    unfolding items by (simp add: message_head_def)
qed

lemma message_body_items:
  assumes "m + 3 \<le> length tvb"
  shows "length (fst (message_body tvb m offset)) \<le> 3 * (length tvb - m) + 5"
proof -
  obtain items r where body: "message_body tvb m offset = (items, r)"
    by (cases "message_body tvb m offset")
  show ?thesis
  proof (cases r)
    case (Inr p)
    obtain m' o' where p: "p = (m', o')"
      by (cases p)
    from message_body_items_success [OF body [unfolded Inr p]]
      message_body_advance [OF body [unfolded Inr p]]
    have "length items \<le> 3 * (length tvb - m) + 5"
      by linarith
    with body show ?thesis
      by simp
  next
    case (Inl e)
    obtain its r' where
      loop: "vect_attr_loop tvb (tvb ! (1 + m)) (tvb ! (2 + m)) m 0 offset = (its, r')"
      by (cases "vect_attr_loop tvb (tvb ! (1 + m)) (tvb ! (2 + m)) m 0 offset")
    from body Inl have "items = message_head tvb m @ its"
      unfolding message_body_eq [OF assms] loop by (cases r') (auto split: if_splits)
    with vect_attr_loop_items [of tvb "tvb ! (1 + m)" "tvb ! (2 + m)" m 0 offset] loop body
    show ?thesis
      by (simp add: message_head_def)
  qed
qed

lemma message_loop_items:
  "length (fst (message_loop tvb m offset)) \<le> 3 * (length tvb - m) + 5"
proof (induction tvb m offset rule: message_loop.induct)
  case (1 tvb m offset)
  show ?case
  proof (cases "tvb_get_ntohs tvb (1 + m)")
    case (Inl e')
    then show ?thesis
      by (simp add: message_loop_truncated)
  next
    case (Inr h)
    from tvb_get_ntohs_Inr_length [OF Inr] have inb: "m + 3 \<le> length tvb"
      by simp
    show ?thesis
    proof (cases "h = 0")
      case True
      with Inr show ?thesis
        by (simp add: message_loop_end)
    next
      case False
      obtain its r where body: "message_body tvb m offset = (its, r)"
        by (cases "message_body tvb m offset")
      show ?thesis
      proof (cases r)
        case (Inl e')
        with message_body_items [OF inb, of offset] body
          message_loop_abort [OF Inr False body [unfolded Inl]]
        show ?thesis
          by simp
      next
        case r: (Inr p)
        obtain m1 o1 where p: "p = (m1, o1)"
          by (cases p)
        note body' = body [unfolded r p]
        have hdr: "tvb_get_ntohs tvb (MMRP_ATTRIBUTE_TYPE_OFFSET + m) = Inr h"
          unfolding mmrp_offset_values by (rule Inr)
        have ne: "h \<noteq> MMRP_END_MARK"
          using False by (simp add: MMRP_END_MARK_def)
        from "1.IH" [OF hdr ne body [symmetric] r p [symmetric]]
        have IH: "length (fst (message_loop tvb m1 o1)) \<le> 3 * (length tvb - m1) + 5" .
        from message_body_advance [OF body'] have adv: "m + 4 \<le> m1" .
        from message_body_items_success [OF body'] IH adv
        have "length its + length (fst (message_loop tvb m1 o1))
                \<le> 3 * (length tvb - m) + 5"
          by linarith
        then show ?thesis
          by (simp add: message_loop_step [OF Inr False body'])
      qed
    qed
  qed
qed

lemma dissect_mmrp_items:
  "length (fst (dissect_mmrp tvb tree')) \<le> 3 * length tvb + 10"
proof (cases tree')
  case False
  then show ?thesis
    by (simp add: dissect_mmrp_eq dissect_head_def)
next
  case True
  obtain its r where loop: "message_loop tvb 0 0 = (its, r)"
    by (cases "message_loop tvb 0 0")
  from message_loop_items [of tvb 0 0] loop have "length its \<le> 3 * length tvb + 5"
    by simp
  with True show ?thesis
    by (cases r) (auto simp: dissect_mmrp_eq loop dissect_head_def split: if_splits)
qed

section \<open>The result of each level\<close>

lemma vect_attr_body_snd:
  "snd (vect_attr_body tvb t l m v offset) =
     (case tvb_get_ntohs tvb (3 + m + v) of
        Inl e \<Rightarrow> Inl e
      | Inr h \<Rightarrow>
          if t = MMRP_ATTRIBUTE_TYPE_MAC then
            if 11 + m + v + (unat (h AND MMRP_NUMBER_OF_VALUES_MASK) + 2) div 3 \<le> length tvb
            then Inr (v + (2 + unat l + (unat (h AND MMRP_NUMBER_OF_VALUES_MASK) + 2) div 3),
                      11 + m + v + (unat (h AND MMRP_NUMBER_OF_VALUES_MASK) + 2) div 3)
            else Inl Truncated
          else if t = MMRP_ATTRIBUTE_TYPE_SERVICE then
            if 6 + m + v + (unat (h AND MMRP_NUMBER_OF_VALUES_MASK) + 2) div 3 \<le> length tvb
            then Inr (v + (2 + unat l + (unat (h AND MMRP_NUMBER_OF_VALUES_MASK) + 2) div 3),
                      6 + m + v + (unat (h AND MMRP_NUMBER_OF_VALUES_MASK) + 2) div 3)
            else Inl Truncated
          else Inr (v + (2 + unat l + (unat (h AND MMRP_NUMBER_OF_VALUES_MASK) + 2) div 3),
                    offset))"
proof (cases "tvb_get_ntohs tvb (3 + m + v)")
  case (Inl e)
  then show ?thesis
    by (simp add: vect_attr_body_truncated)
next
  case (Inr h)
  let ?c = "(unat (h AND MMRP_NUMBER_OF_VALUES_MASK) + 2) div 3"
  have a: "11 + m + v \<le> length tvb \<and> ?c \<le> length tvb - (11 + m + v)
             \<longleftrightarrow> 11 + m + v + ?c \<le> length tvb"
    "6 + m + v \<le> length tvb \<and> ?c \<le> length tvb - (6 + m + v)
             \<longleftrightarrow> 6 + m + v + ?c \<le> length tvb"
    by linarith+
  have ne: "MMRP_ATTRIBUTE_TYPE_SERVICE \<noteq> MMRP_ATTRIBUTE_TYPE_MAC"
    by (simp add: MMRP_ATTRIBUTE_TYPE_SERVICE_def MMRP_ATTRIBUTE_TYPE_MAC_def)
  consider (mac) "t = MMRP_ATTRIBUTE_TYPE_MAC"
    | (service) "t = MMRP_ATTRIBUTE_TYPE_SERVICE"
    | (other) "t \<noteq> MMRP_ATTRIBUTE_TYPE_MAC" "t \<noteq> MMRP_ATTRIBUTE_TYPE_SERVICE"
    by blast
  then show ?thesis
  proof cases
    case mac
    show ?thesis
      unfolding vect_attr_body_eq [OF Inr] Inr mac
      using a(1) by (auto simp: dissect_mmrp_three_packed_event_eq)
  next
    case service
    show ?thesis
      unfolding vect_attr_body_eq [OF Inr] Inr service
      using a(2) ne by (auto simp: dissect_mmrp_three_packed_event_eq)
  next
    case other
    then show ?thesis
      unfolding vect_attr_body_eq [OF Inr] Inr
      by simp
  qed
qed

lemma vect_attr_loop_snd:
  "snd (vect_attr_loop tvb t l m v offset) =
     (case tvb_get_ntohs tvb (3 + m + v) of
        Inl e \<Rightarrow> Inl e
      | Inr h \<Rightarrow>
          if h = MMRP_END_MARK then Inr (v, offset)
          else (case snd (vect_attr_body tvb t l m v offset) of
                  Inl e \<Rightarrow> Inl e
                | Inr (v1, o1) \<Rightarrow> snd (vect_attr_loop tvb t l m v1 o1)))"
  by (subst vect_attr_loop_unfold)
    (simp add: MMRP_END_MARK_def split: sum.splits prod.splits)

lemma message_body_snd:
  "snd (message_body tvb m offset) =
     (if m + 3 \<le> length tvb then
        case snd (vect_attr_loop tvb (tvb ! (1 + m)) (tvb ! (2 + m)) m 0 offset) of
          Inl e \<Rightarrow> Inl e
        | Inr (v, offset') \<Rightarrow>
            if offset' + 2 \<le> length tvb then Inr (m + (v + 2 + 2), offset')
            else Inl Truncated
      else Inl Truncated)"
proof (cases "m + 3 \<le> length tvb")
  case True
  then show ?thesis
    by (simp add: message_body_eq split: sum.splits prod.splits)
next
  case False
  have "snd (message_body tvb m offset) = Inl Truncated"
  proof (cases "snd (message_body tvb m offset)")
    case (Inl e)
    with message_body_error [OF Inl] show ?thesis
      by simp
  next
    case (Inr r)
    from message_body_success_length [OF Inr] False show ?thesis
      by simp
  qed
  with False show ?thesis
    by simp
qed

lemma message_loop_snd:
  "snd (message_loop tvb m offset) =
     (case tvb_get_ntohs tvb (1 + m) of
        Inl e \<Rightarrow> Inl e
      | Inr h \<Rightarrow>
          if h = MMRP_END_MARK then Inr (m, offset)
          else (case snd (message_body tvb m offset) of
                  Inl e \<Rightarrow> Inl e
                | Inr (m1, o1) \<Rightarrow> snd (message_loop tvb m1 o1)))"
  by (subst message_loop_unfold)
    (simp add: MMRP_END_MARK_def split: sum.splits prod.splits)

lemma dissect_mmrp_snd:
  "snd (dissect_mmrp tvb True) =
     (if tvb = [] then Inl Truncated
      else
        case snd (message_loop tvb 0 0) of
          Inl e \<Rightarrow> Inl e
        | Inr (m, offset) \<Rightarrow>
            if offset + 4 \<le> length tvb then Inr (length tvb) else Inl Truncated)"
  by (simp add: dissect_mmrp_eq split: sum.splits prod.splits)

section \<open>A dissection that completes stays in the buffer\<close>

lemma packed_event_items_in_buffer:
  "\<forall>it \<in> set (fst (dissect_mmrp_three_packed_event tvb start n)). item_in_buffer tvb it"
proof -
  have "start + i div 3 + 1 \<le> length tvb" if "i < 3 * (length tvb - start)" for i
    using that by linarith
  then show ?thesis
    by (auto simp: dissect_mmrp_three_packed_event_eq packed_event_item_def)
qed

lemma vect_attr_body_in_buffer:
  assumes "tvb_get_ntohs tvb (3 + m + v) = Inr h"
    and "vect_attr_body tvb t l m v offset = (its, Inr (v1, o1))"
    and "3 + m + v1 \<le> length tvb"
  shows "\<forall>it \<in> set its. item_in_buffer tvb it"
proof -
  let ?n = "h AND MMRP_NUMBER_OF_VALUES_MASK"
  from assms(2) have its: "its = fst (vect_attr_body tvb t l m v offset)"
    and snd: "snd (vect_attr_body tvb t l m v offset) = Inr (v1, o1)"
    by simp_all
  from vect_attr_body_result(1) [OF assms(1) snd]
  have v1: "v1 = v + (2 + unat l + (unat ?n + 2) div 3)" .
  from tvb_get_ntohs_Inr_length [OF assms(1)] have peek: "3 + m + v + 2 \<le> length tvb" .
  have len: "\<not> vect_attr_len l ?n < 0"
    using vect_attr_len_ge2 [of l ?n] by linarith
  have va: "3 + m + v + nat (vect_attr_len l ?n) \<le> length tvb"
    unfolding nat_vect_attr_len using assms(3) v1 by linarith
  have hd: "\<forall>it \<in> set (vect_attr_head l (3 + m + v) h). item_in_buffer tvb it"
    using peek va len by (simp add: vect_attr_head_def)
  have "5 + m + v + unat l \<le> length tvb"
    using assms(3) v1 by linarith
  then have fv:
    "item_in_buffer tvb (Item vect_attr_tree hf_mmrp_first_value (5 + m + v) (uint l))"
    by simp
  show ?thesis
    unfolding its vect_attr_body_eq [OF assms(1)]
    using hd fv packed_event_items_in_buffer [of tvb "11 + m + v" ?n]
      packed_event_items_in_buffer [of tvb "6 + m + v" ?n]
    by (auto split: if_splits)
qed

lemma vect_attr_loop_in_buffer:
  assumes "vect_attr_loop tvb t l m v offset = (items, Inr (v', offset'))"
  shows "\<forall>it \<in> set items. item_in_buffer tvb it"
  using assms
proof (induction rule: vect_attr_loop_success_induct)
  case (End_Mark v offset)
  then show ?case
    by simp
next
  case (Vector_Attribute v offset h its v1 o1 rest v' offset')
  from vect_attr_loop_final [OF Vector_Attribute(4)]
  have "v1 \<le> v'" "3 + m + v' + 2 \<le> length tvb"
    by (auto dest: tvb_get_ntohs_Inr_length)
  then have "3 + m + v1 \<le> length tvb"
    by simp
  from vect_attr_body_in_buffer [OF Vector_Attribute(1) Vector_Attribute(3) this]
    Vector_Attribute(5)
  show ?case
    by auto
qed

lemma message_body_in_buffer:
  assumes "message_body tvb m offset = (items, Inr (m', offset'))"
  shows "\<forall>it \<in> set items. item_in_buffer tvb it"
proof -
  from assms have len: "m + 3 \<le> length tvb"
    by (intro message_body_success_length [of tvb m offset "(m', offset')"]) simp
  from assms obtain its v where
    loop: "vect_attr_loop tvb (tvb ! (1 + m)) (tvb ! (2 + m)) m 0 offset
             = (its, Inr (v, offset'))"
    and fits: "offset' + 2 \<le> length tvb"
    and items: "items = message_head tvb m @ its
                          @ [Item attr_list_tree hf_mmrp_end_mark offset' 2]"
    unfolding message_body_eq [OF len]
    by (auto split: prod.splits sum.splits if_splits)
  from vect_attr_loop_in_buffer [OF loop] len fits show ?thesis
    unfolding items by (auto simp: message_head_def)
qed

lemma message_loop_in_buffer:
  assumes "message_loop tvb m offset = (items, Inr (m', offset'))"
  shows "\<forall>it \<in> set items. item_in_buffer tvb it"
  using assms
proof (induction rule: message_loop_success_induct)
  case (End_Mark m offset)
  then show ?case
    by simp
next
  case (Message m offset h its m1 o1 rest m' offset')
  from message_body_in_buffer [OF Message(3)] Message(5)
  show ?case
    by auto
qed

lemma dissect_mmrp_in_buffer:
  assumes "snd (dissect_mmrp tvb True) = Inr r"
  shows "\<forall>it \<in> set (fst (dissect_mmrp tvb True)). item_in_buffer tvb it"
proof -
  obtain its r' where loop: "message_loop tvb 0 0 = (its, r')"
    by (cases "message_loop tvb 0 0")
  from assms obtain m' o' where r': "r' = Inr (m', o')" and ne: "tvb \<noteq> []"
    and fits: "o' + 4 \<le> length tvb"
    unfolding dissect_mmrp_eq loop by (cases r') (auto split: if_splits)
  from ne have "1 \<le> length tvb"
    by (cases tvb) simp_all
  with message_loop_in_buffer [OF loop [unfolded r']] fits ne show ?thesis
    by (auto simp: dissect_mmrp_eq loop r' dissect_head_def)
qed

section \<open>The claims of the specification\<close>

text \<open>
  C1. For every count \<open>N\<close> and start offset with \<open>ceil(N/3)\<close> bytes in the buffer from the
  offset on, \<open>dissect_mmrp_three_packed_event\<close> adds exactly \<open>N\<close> event items in order,
  event \<open>i\<close> being digit \<open>i mod 3\<close> of \<open>[v/36, (v%36)/6, v%6]\<close> for the byte \<open>v\<close> at
  \<open>offset + i div 3\<close>, and returns the offset after the last of the \<open>ceil(N/3)\<close> bytes it
  has read. The values added are the first \<open>N\<close> digits of those bytes: the digits of the
  last byte beyond the \<open>N\<close>-th event are computed and not added.
\<close>

theorem three_packed_event_expansion:
  assumes "offset + nat \<lceil>real (unat n) / 3\<rceil> \<le> length tvb"
  shows "dissect_mmrp_three_packed_event tvb offset n =
           (map (\<lambda>i. Uint vect_attr_tree hf_mmrp_three_packed_event (offset + i div 3) 1
                        (expand_spec (unat (tvb ! (offset + i div 3))) ! (i mod 3)))
              [0..<unat n],
            Inr (offset + nat \<lceil>real (unat n) / 3\<rceil>))
         \<and> map uint_value (fst (dissect_mmrp_three_packed_event tvb offset n))
           = packed_events_spec
               (map unat (take (nat \<lceil>real (unat n) / 3\<rceil>) (drop offset tvb))) (unat n)"
proof -
  from assms have b: "offset + (unat n + 2) div 3 \<le> length tvb"
    by (simp only: ceiling_thirds)
  then have le: "unat n \<le> 3 * (length tvb - offset)" "(unat n + 2) div 3 \<le> length tvb - offset"
    by linarith+
  have item: "packed_event_item tvb offset =
      (\<lambda>i. Uint vect_attr_tree hf_mmrp_three_packed_event (offset + i div 3) 1
               (expand_spec (unat (tvb ! (offset + i div 3))) ! (i mod 3)))"
    by (rule ext) (simp add: packed_event_item_def)
  have eq: "dissect_mmrp_three_packed_event tvb offset n =
          (map (packed_event_item tvb offset) [0..<unat n], Inr (offset + (unat n + 2) div 3))"
    using le by (simp add: dissect_mmrp_three_packed_event_def three_packed_loop_eq min_def)
  have "map uint_value (fst (dissect_mmrp_three_packed_event tvb offset n))
        = packed_events_spec (map unat (take ((unat n + 2) div 3) (drop offset tvb))) (unat n)"
    using packed_events_spec_eq [OF b] by (simp add: eq)
  with eq show ?thesis
    by (simp only: ceiling_thirds item)
qed

theorem three_packed_event_expansion_witness:
  "0 + nat \<lceil>real (unat (5 :: 16 word)) / 3\<rceil> \<le> length [0xFF, 0x64, 0x07 :: 8 word]
   \<and> dissect_mmrp_three_packed_event [0xFF, 0x64, 0x07] 0 5 =
       ([Uint vect_attr_tree hf_mmrp_three_packed_event 0 1 7,
         Uint vect_attr_tree hf_mmrp_three_packed_event 0 1 0,
         Uint vect_attr_tree hf_mmrp_three_packed_event 0 1 3,
         Uint vect_attr_tree hf_mmrp_three_packed_event 1 1 2,
         Uint vect_attr_tree hf_mmrp_three_packed_event 1 1 4], Inr 2)
   \<and> packed_events_spec [255, 100] 5 = [7, 0, 3, 2, 4]"
proof -
  have h: "0 + nat \<lceil>real (unat (5 :: 16 word)) / 3\<rceil> \<le> length [0xFF, 0x64, 0x07 :: 8 word]"
    by (simp add: ceiling_thirds)
  have u: "[0..<5] = [0, 1, 2, 3, 4]"
    by (simp add: upt_rec)
  have c: "nat \<lceil>real (unat (5 :: 16 word)) / 3\<rceil> = 2"
    by (simp add: ceiling_thirds)
  show ?thesis
    using h three_packed_event_expansion [OF h]
    by (simp add: u c expand_spec_def packed_events_spec_def)
qed

text \<open>
  C2. For every NumberOfValues \<open>N\<close> in [0, 8191] and every AttributeLength \<open>L\<close>, the
  length computed on line 292 is \<open>2 + L + ceil(N/3)\<close>: the C expression \<open>(N + 2) / 3\<close>,
  evaluated in 32-bit \<open>int\<close>, is \<open>ceil(N/3)\<close>, and no step of the computation wraps.
  With \<open>N = 0\<close> the length is \<open>2 + L\<close> and the expander reads no byte; with \<open>N = 8191\<close>
  the packed events take 2731 bytes.
\<close>

theorem vect_attr_len_value:
  assumes "unat n \<le> 8191"
  shows "vect_attr_len l n = 2 + uint l + \<lceil>real (unat n) / 3\<rceil>
         \<and> c_int (uint n + 2) sdiv 3 = \<lceil>real (unat n) / 3\<rceil>
         \<and> - (2 ^ 31) \<le> vect_attr_len l n \<and> vect_attr_len l n < 2 ^ 31
         \<and> vect_attr_len l 0 = 2 + uint l
         \<and> dissect_mmrp_three_packed_event tvb offset 0 = ([], Inr offset)
         \<and> vect_attr_len l 8191 = 2 + uint l + 2731
         \<and> (offset + 2731 \<le> length tvb \<longrightarrow>
              snd (dissect_mmrp_three_packed_event tvb offset 8191) = Inr (offset + 2731))"
proof -
  have u: "uint n = int (unat n)"
    by (rule uint_nat)
  have ceil: "\<lceil>real (unat n) / 3\<rceil> = (uint n + 2) div 3"
  proof -
    have nn: "(0 :: real) \<le> real (unat n) / 3"
      by (rule divide_nonneg_nonneg [OF of_nat_0_le_iff]) simp
    from ceiling_mono [OF nn] have "0 \<le> \<lceil>real (unat n) / 3\<rceil>"
      by (simp only: ceiling_zero)
    then have "\<lceil>real (unat n) / 3\<rceil> = int (nat \<lceil>real (unat n) / 3\<rceil>)"
      by (simp only: int_nat_eq if_True)
    also have "\<dots> = int ((unat n + 2) div 3)"
      by (simp only: ceiling_thirds)
    also have "\<dots> = (int (unat n) + 2) div 3"
      by linarith
    finally show ?thesis
      unfolding u .
  qed
  have n: "0 \<le> uint n" "uint n \<le> 8191"
    unfolding u using assms by linarith+
  then have "c_int (uint n + 2) = uint n + 2"
    by (intro c_int_id) simp_all
  moreover have "(uint n + 2) sdiv 3 = (uint n + 2) div 3"
    using n by (simp add: signed_divide_int_def sgn_if)
  ultimately have expr: "c_int (uint n + 2) sdiv 3 = \<lceil>real (unat n) / 3\<rceil>"
    by (simp only: ceil)
  have l: "0 \<le> uint l" "uint l < 256"
    using uint_bounded [of l] by simp_all
  have d: "0 \<le> (uint n + 2) div 3" "(uint n + 2) div 3 \<le> 2731"
    using n by linarith+
  have val: "vect_attr_len l n = 2 + uint l + \<lceil>real (unat n) / 3\<rceil>"
    unfolding ceil by (rule vect_attr_len_eq)
  have range: "- (2 ^ 31) \<le> vect_attr_len l n" "vect_attr_len l n < 2 ^ 31"
    unfolding vect_attr_len_eq using l d by simp_all
  have zero: "vect_attr_len l 0 = 2 + uint l"
    by (simp add: vect_attr_len_eq)
  have max: "vect_attr_len l 8191 = 2 + uint l + 2731"
    by (simp add: vect_attr_len_eq)
  have none: "dissect_mmrp_three_packed_event tvb offset 0 = ([], Inr offset)"
    by (simp add: dissect_mmrp_three_packed_event_eq)
  have all: "offset + 2731 \<le> length tvb \<longrightarrow>
             snd (dissect_mmrp_three_packed_event tvb offset 8191) = Inr (offset + 2731)"
    by (simp add: dissect_mmrp_three_packed_event_eq) linarith
  show ?thesis
    using val expr range zero max none all by blast
qed

theorem vect_attr_len_value_witness:
  "unat (8191 :: 16 word) \<le> 8191
   \<and> 0 + 2731 \<le> length (replicate 2731 (0 :: 8 word))
   \<and> vect_attr_len 6 8191 = 2739
   \<and> \<lceil>real (unat (8191 :: 16 word)) / 3\<rceil> = 2731
   \<and> snd (dissect_mmrp_three_packed_event (replicate 2731 0) 0 8191) = Inr 2731"
  using vect_attr_len_value [of 8191 6 "replicate 2731 0" 0]
  by simp

text \<open>
  C3. Both loops frame their records by looking one record ahead. The Message loop reads
  the two bytes at \<open>1 + msg_offset\<close>, the Vector Attribute loop the two bytes at
  \<open>3 + msg_offset + vect_offset\<close>. The loop ends there, adding nothing, exactly when the
  two bytes are in the buffer and are 0x0000. When they are anything else the loop commits:
  the record's first item is added at that position, and when the record has been
  dissected the loop goes on from a cursor strictly beyond, so no position is tried twice.
\<close>

theorem sentinel_framing:
  "(message_loop tvb m offset = ([], Inr (m, offset))
      \<longleftrightarrow> tvb_get_ntohs tvb (1 + m) = Inr MMRP_END_MARK)
   \<and> (vect_attr_loop tvb t l m v offset = ([], Inr (v, offset))
      \<longleftrightarrow> tvb_get_ntohs tvb (3 + m + v) = Inr MMRP_END_MARK)
   \<and> (tvb_get_ntohs tvb (1 + m) = Inr h \<and> h \<noteq> MMRP_END_MARK \<longrightarrow>
        (\<exists>rest. fst (message_loop tvb m offset)
                  = Item mmrp_tree hf_mmrp_message (1 + m) (- 1) # rest)
        \<and> (\<forall>m1 o1. snd (message_body tvb m offset) = Inr (m1, o1) \<longrightarrow>
               m < m1
               \<and> message_loop tvb m offset
                   = (fst (message_body tvb m offset) @ fst (message_loop tvb m1 o1),
                      snd (message_loop tvb m1 o1))))
   \<and> (tvb_get_ntohs tvb (3 + m + v) = Inr h' \<and> h' \<noteq> MMRP_END_MARK \<longrightarrow>
        (\<exists>len rest. fst (vect_attr_loop tvb t l m v offset)
                  = Item attr_list_tree hf_mmrp_vector_attribute (3 + m + v) len # rest)
        \<and> (\<forall>v1 o1. snd (vect_attr_body tvb t l m v offset) = Inr (v1, o1) \<longrightarrow>
               v < v1
               \<and> vect_attr_loop tvb t l m v offset
                   = (fst (vect_attr_body tvb t l m v offset)
                        @ fst (vect_attr_loop tvb t l m v1 o1),
                      snd (vect_attr_loop tvb t l m v1 o1))))"
proof -
  have msg: "(\<exists>rest. fst (message_loop tvb m offset)
                  = Item mmrp_tree hf_mmrp_message (1 + m) (- 1) # rest)
        \<and> (\<forall>m1 o1. snd (message_body tvb m offset) = Inr (m1, o1) \<longrightarrow>
               m < m1
               \<and> message_loop tvb m offset
                   = (fst (message_body tvb m offset) @ fst (message_loop tvb m1 o1),
                      snd (message_loop tvb m1 o1)))"
    if peek: "tvb_get_ntohs tvb (1 + m) = Inr h" and h: "h \<noteq> MMRP_END_MARK"
  proof -
    from h have h0: "h \<noteq> 0"
      by (simp add: MMRP_END_MARK_def)
    from message_loop_commits [OF peek h]
    have commit: "\<exists>rest. fst (message_loop tvb m offset)
                  = Item mmrp_tree hf_mmrp_message (1 + m) (- 1) # rest"
      by (auto simp: message_head_def)
    have "m < m1 \<and> message_loop tvb m offset
                   = (fst (message_body tvb m offset) @ fst (message_loop tvb m1 o1),
                      snd (message_loop tvb m1 o1))"
      if "snd (message_body tvb m offset) = Inr (m1, o1)" for m1 o1
    proof -
      from that have body: "message_body tvb m offset
                              = (fst (message_body tvb m offset), Inr (m1, o1))"
        by (cases "message_body tvb m offset") simp
      from message_body_advance [OF body] message_loop_step [OF peek h0 body]
      show ?thesis
        by simp
    qed
    with commit show ?thesis
      by blast
  qed
  have vect: "(\<exists>len rest. fst (vect_attr_loop tvb t l m v offset)
                  = Item attr_list_tree hf_mmrp_vector_attribute (3 + m + v) len # rest)
        \<and> (\<forall>v1 o1. snd (vect_attr_body tvb t l m v offset) = Inr (v1, o1) \<longrightarrow>
               v < v1
               \<and> vect_attr_loop tvb t l m v offset
                   = (fst (vect_attr_body tvb t l m v offset)
                        @ fst (vect_attr_loop tvb t l m v1 o1),
                      snd (vect_attr_loop tvb t l m v1 o1)))"
    if peek: "tvb_get_ntohs tvb (3 + m + v) = Inr h'" and h: "h' \<noteq> MMRP_END_MARK"
  proof -
    from h have h0: "h' \<noteq> 0"
      by (simp add: MMRP_END_MARK_def)
    from vect_attr_loop_commits [OF peek h, of t l offset]
    have commit: "\<exists>len rest. fst (vect_attr_loop tvb t l m v offset)
                  = Item attr_list_tree hf_mmrp_vector_attribute (3 + m + v) len # rest"
      by (auto simp: vect_attr_head_def)
    have "v < v1 \<and> vect_attr_loop tvb t l m v offset
                   = (fst (vect_attr_body tvb t l m v offset)
                        @ fst (vect_attr_loop tvb t l m v1 o1),
                      snd (vect_attr_loop tvb t l m v1 o1))"
      if "snd (vect_attr_body tvb t l m v offset) = Inr (v1, o1)" for v1 o1
    proof -
      from that have body: "vect_attr_body tvb t l m v offset
                              = (fst (vect_attr_body tvb t l m v offset), Inr (v1, o1))"
        by (cases "vect_attr_body tvb t l m v offset") simp
      from vect_attr_body_advance [OF body] vect_attr_loop_step [OF peek h0 body]
      show ?thesis
        by simp
    qed
    with commit show ?thesis
      by blast
  qed
  from msg vect message_loop_ends_iff [of tvb m offset]
    vect_attr_loop_ends_iff [of tvb t l m v offset]
  show ?thesis
    by blast
qed

theorem sentinel_framing_witness:
  "tvb_get_ntohs mac6_tvb (1 + 0) = Inr 0x0206 \<and> 0x0206 \<noteq> MMRP_END_MARK
   \<and> snd (message_body mac6_tvb 0 0) = Inr (14, 13)
   \<and> tvb_get_ntohs mac6_tvb (3 + 0 + 0) = Inr 0x0004 \<and> 0x0004 \<noteq> MMRP_END_MARK
   \<and> snd (vect_attr_body mac6_tvb 2 6 0 0 0) = Inr (10, 13)
   \<and> message_loop mac6_tvb 0 0
       = (fst (message_body mac6_tvb 0 0) @ fst (message_loop mac6_tvb 14 13),
          snd (message_loop mac6_tvb 14 13))
   \<and> vect_attr_loop mac6_tvb 2 6 0 0 0
       = (fst (vect_attr_body mac6_tvb 2 6 0 0 0) @ fst (vect_attr_loop mac6_tvb 2 6 0 10 13),
          snd (vect_attr_loop mac6_tvb 2 6 0 10 13))
   \<and> message_loop mac6_tvb 14 13 = ([], Inr (14, 13))
   \<and> vect_attr_loop mac6_tvb 2 6 0 10 13 = ([], Inr (10, 13))"
proof -
  have p1: "tvb_get_ntohs mac6_tvb (1 + 0) = Inr 0x0206"
    and p2: "tvb_get_ntohs mac6_tvb (3 + 0 + 0) = Inr 0x0004"
    and e1: "tvb_get_ntohs mac6_tvb (1 + 14) = Inr MMRP_END_MARK"
    and e2: "tvb_get_ntohs mac6_tvb (3 + 0 + 10) = Inr MMRP_END_MARK"
    by (simp_all add: tvb_get_ntohs_def mac6_tvb_def MMRP_END_MARK_def)
  have n: "(0x0206 :: 16 word) \<noteq> MMRP_END_MARK" "(0x0004 :: 16 word) \<noteq> MMRP_END_MARK"
    by (simp_all add: MMRP_END_MARK_def)
  have b1: "snd (message_body mac6_tvb 0 0) = Inr (14, 13)"
    by code_simp
  have b2: "snd (vect_attr_body mac6_tvb 2 6 0 0 0) = Inr (10, 13)"
    by code_simp
  from sentinel_framing [of mac6_tvb 0 0 2 6 0 "0x0206" "0x0004"]
    sentinel_framing [of mac6_tvb 14 13 2 6 0 0 0]
    sentinel_framing [of mac6_tvb 0 13 2 6 10 0 0]
    p1 p2 e1 e2 n b1 b2
  show ?thesis
    by simp
qed

text \<open>
  C4. For every 16-bit Vector Header value \<open>h\<close>, Number-of-Values is \<open>h\<close> under the mask
  0x1FFF, which is bits 12 to 0 of \<open>h\<close> and at most 8191, and Leave-All-Event is \<open>h\<close> under
  the mask 0xE000, which is bits 15 to 13 of \<open>h\<close>, shown as a value from 0 to 7. Nothing
  else is checked. Once the header has been read, the whole outcome of the Vector Attribute
  is given by the equation below for every \<open>h\<close>: the items are the Vector Attribute item
  sized from Number-of-Values, the header item, the two fields, and what the Message type
  adds; the result is the pair of new cursors, or \<open>Truncated\<close> exactly when the first value
  of the type and the \<open>ceil(N/3)\<close> packed bytes are not all in the buffer. Leave-All-Event
  enters the items as the value shown and the result not at all, and no value of either
  field is refused.
\<close>

theorem vector_header_fields_extracted:
  "unat (h AND MMRP_NUMBER_OF_VALUES_MASK) = unat h mod 2 ^ 13
   \<and> unat (h AND MMRP_NUMBER_OF_VALUES_MASK) \<le> 8191
   \<and> (\<forall>i. bit (h AND MMRP_NUMBER_OF_VALUES_MASK) i \<longleftrightarrow> bit h i \<and> i \<le> 12)
   \<and> (\<forall>i. bit (h AND MMRP_LEAVE_ALL_EVENT_MASK) i \<longleftrightarrow> bit h i \<and> 13 \<le> i \<and> i \<le> 15)
   \<and> unat (bitmask_value (hf_bitmask hf_mmrp_leave_all_event) h) = unat h div 2 ^ 13
   \<and> unat (bitmask_value (hf_bitmask hf_mmrp_leave_all_event) h) \<le> 7
   \<and> unat (bitmask_value (hf_bitmask hf_mmrp_number_of_values) h) = unat h mod 2 ^ 13
   \<and> (tvb_get_ntohs tvb (3 + m + v) = Inr h \<longrightarrow>
        vect_attr_body tvb t l m v offset =
          (Item attr_list_tree hf_mmrp_vector_attribute (3 + m + v)
             (vect_attr_len l (h AND MMRP_NUMBER_OF_VALUES_MASK))
           # Item vect_attr_tree hf_mmrp_vector_header (3 + m + v) 2
           # Uint vector_header_tree hf_mmrp_leave_all_event (3 + m + v) 2
               (unat h div 2 ^ 13)
           # Uint vector_header_tree hf_mmrp_number_of_values (3 + m + v) 2
               (unat h mod 2 ^ 13)
           # (if t = MMRP_ATTRIBUTE_TYPE_MAC then
                Item vect_attr_tree hf_mmrp_first_value (5 + m + v) (uint l)
                # (if 11 + m + v \<le> length tvb then
                     Item first_value_tree hf_mmrp_mac (5 + m + v) 6
                     # map (packed_event_item tvb (11 + m + v))
                         [0..<min (unat h mod 2 ^ 13) (3 * (length tvb - (11 + m + v)))]
                   else [])
              else if t = MMRP_ATTRIBUTE_TYPE_SERVICE then
                Item vect_attr_tree hf_mmrp_first_value (5 + m + v) (uint l)
                # (if 6 + m + v \<le> length tvb then
                     Item first_value_tree hf_mmrp_ser_req (5 + m + v) 1
                     # map (packed_event_item tvb (6 + m + v))
                         [0..<min (unat h mod 2 ^ 13) (3 * (length tvb - (6 + m + v)))]
                   else [])
              else []),
           if t = MMRP_ATTRIBUTE_TYPE_MAC then
             if 11 + m + v + (unat h mod 2 ^ 13 + 2) div 3 \<le> length tvb
             then Inr (v + (2 + unat l + (unat h mod 2 ^ 13 + 2) div 3),
                       11 + m + v + (unat h mod 2 ^ 13 + 2) div 3)
             else Inl Truncated
           else if t = MMRP_ATTRIBUTE_TYPE_SERVICE then
             if 6 + m + v + (unat h mod 2 ^ 13 + 2) div 3 \<le> length tvb
             then Inr (v + (2 + unat l + (unat h mod 2 ^ 13 + 2) div 3),
                       6 + m + v + (unat h mod 2 ^ 13 + 2) div 3)
             else Inl Truncated
           else Inr (v + (2 + unat l + (unat h mod 2 ^ 13 + 2) div 3), offset)))"
proof -
  have nv: "unat (h AND MMRP_NUMBER_OF_VALUES_MASK) = unat h mod 2 ^ 13"
    by (simp add: unat_number_of_values)
  then have nv_le: "unat (h AND MMRP_NUMBER_OF_VALUES_MASK) \<le> 8191"
    by simp
  have nv_bits: "bit (h AND MMRP_NUMBER_OF_VALUES_MASK) i \<longleftrightarrow> bit h i \<and> i \<le> 12" for i
    by (auto simp: number_of_values_mask bit_simps)
  have m: "MMRP_LEAVE_ALL_EVENT_MASK = push_bit 13 (mask 3)"
    by (simp add: MMRP_LEAVE_ALL_EVENT_MASK_def mask_eq_exp_minus_1)
  have la_bits:
    "bit (h AND MMRP_LEAVE_ALL_EVENT_MASK) i \<longleftrightarrow> bit h i \<and> 13 \<le> i \<and> i \<le> 15" for i
    unfolding m using bit_imp_le_length [of h i] by (auto simp: bit_simps)
  have la: "unat (bitmask_value (hf_bitmask hf_mmrp_leave_all_event) h) = unat h div 2 ^ 13"
    by (simp add: bitmask_value_fields del: hf_bitmask.simps)
  have "unat h < 2 ^ LENGTH(16)"
    by (rule unsigned_less)
  then have la_le: "unat (bitmask_value (hf_bitmask hf_mmrp_leave_all_event) h) \<le> 7"
    unfolding la by simp
  have nf: "unat (bitmask_value (hf_bitmask hf_mmrp_number_of_values) h) = unat h mod 2 ^ 13"
    by (simp add: bitmask_value_fields del: hf_bitmask.simps)
  have body: "vect_attr_body tvb t l m v offset =
          (Item attr_list_tree hf_mmrp_vector_attribute (3 + m + v)
             (vect_attr_len l (h AND MMRP_NUMBER_OF_VALUES_MASK))
           # Item vect_attr_tree hf_mmrp_vector_header (3 + m + v) 2
           # Uint vector_header_tree hf_mmrp_leave_all_event (3 + m + v) 2
               (unat h div 2 ^ 13)
           # Uint vector_header_tree hf_mmrp_number_of_values (3 + m + v) 2
               (unat h mod 2 ^ 13)
           # (if t = MMRP_ATTRIBUTE_TYPE_MAC then
                Item vect_attr_tree hf_mmrp_first_value (5 + m + v) (uint l)
                # (if 11 + m + v \<le> length tvb then
                     Item first_value_tree hf_mmrp_mac (5 + m + v) 6
                     # map (packed_event_item tvb (11 + m + v))
                         [0..<min (unat h mod 2 ^ 13) (3 * (length tvb - (11 + m + v)))]
                   else [])
              else if t = MMRP_ATTRIBUTE_TYPE_SERVICE then
                Item vect_attr_tree hf_mmrp_first_value (5 + m + v) (uint l)
                # (if 6 + m + v \<le> length tvb then
                     Item first_value_tree hf_mmrp_ser_req (5 + m + v) 1
                     # map (packed_event_item tvb (6 + m + v))
                         [0..<min (unat h mod 2 ^ 13) (3 * (length tvb - (6 + m + v)))]
                   else [])
              else []),
           if t = MMRP_ATTRIBUTE_TYPE_MAC then
             if 11 + m + v + (unat h mod 2 ^ 13 + 2) div 3 \<le> length tvb
             then Inr (v + (2 + unat l + (unat h mod 2 ^ 13 + 2) div 3),
                       11 + m + v + (unat h mod 2 ^ 13 + 2) div 3)
             else Inl Truncated
           else if t = MMRP_ATTRIBUTE_TYPE_SERVICE then
             if 6 + m + v + (unat h mod 2 ^ 13 + 2) div 3 \<le> length tvb
             then Inr (v + (2 + unat l + (unat h mod 2 ^ 13 + 2) div 3),
                       6 + m + v + (unat h mod 2 ^ 13 + 2) div 3)
             else Inl Truncated
           else Inr (v + (2 + unat l + (unat h mod 2 ^ 13 + 2) div 3), offset))"
    (is "_ = (?its, ?res)")
    if peek: "tvb_get_ntohs tvb (3 + m + v) = Inr h"
  proof -
    have ne: "MMRP_ATTRIBUTE_TYPE_SERVICE \<noteq> MMRP_ATTRIBUTE_TYPE_MAC"
      by (simp add: MMRP_ATTRIBUTE_TYPE_SERVICE_def MMRP_ATTRIBUTE_TYPE_MAC_def)
    have "fst (vect_attr_body tvb t l m v offset) = ?its"
      unfolding vect_attr_body_eq [OF peek] vect_attr_head_def
        dissect_mmrp_three_packed_event_eq
      by (simp add: unat_number_of_values)
    moreover have "snd (vect_attr_body tvb t l m v offset) = ?res"
      unfolding vect_attr_body_snd peek using ne
      by (simp add: unat_number_of_values)
    ultimately show ?thesis
      by (simp add: prod_eq_iff)
  qed
  show ?thesis
    using nv nv_le nv_bits la_bits la la_le nf body by blast
qed

theorem vector_header_fields_extracted_witness:
  "tvb_get_ntohs leave_all_tvb (3 + 0 + 0) = Inr 0xE001
   \<and> vect_attr_body leave_all_tvb MMRP_ATTRIBUTE_TYPE_MAC 6 0 0 0
     = ([Item attr_list_tree hf_mmrp_vector_attribute 3 9,
         Item vect_attr_tree hf_mmrp_vector_header 3 2,
         Uint vector_header_tree hf_mmrp_leave_all_event 3 2 7,
         Uint vector_header_tree hf_mmrp_number_of_values 3 2 1,
         Item vect_attr_tree hf_mmrp_first_value 5 6,
         Item first_value_tree hf_mmrp_mac 5 6,
         Uint vect_attr_tree hf_mmrp_three_packed_event 11 1 2],
        Inr (9, 12))
   \<and> tvb_get_ntohs [0x00, 0x02, 0x06, 0x20, 0x00, 1, 2, 3, 4, 5, 6, 0, 0, 0, 0] (3 + 0 + 0)
     = Inr 0x2000
   \<and> vect_attr_body [0x00, 0x02, 0x06, 0x20, 0x00, 1, 2, 3, 4, 5, 6, 0, 0, 0, 0]
       MMRP_ATTRIBUTE_TYPE_MAC 6 0 0 0
     = ([Item attr_list_tree hf_mmrp_vector_attribute 3 8,
         Item vect_attr_tree hf_mmrp_vector_header 3 2,
         Uint vector_header_tree hf_mmrp_leave_all_event 3 2 1,
         Uint vector_header_tree hf_mmrp_number_of_values 3 2 0,
         Item vect_attr_tree hf_mmrp_first_value 5 6,
         Item first_value_tree hf_mmrp_mac 5 6],
        Inr (8, 11))"
proof -
  let ?z = "[0x00, 0x02, 0x06, 0x20, 0x00, 1, 2, 3, 4, 5, 6, 0, 0, 0, 0] :: tvbuff"
  have hz: "tvb_get_ntohs ?z (3 + 0 + 0) = Inr 0x2000"
    by (simp add: tvb_get_ntohs_def)
  have nz: "(0x2000 :: 16 word) AND MMRP_NUMBER_OF_VALUES_MASK = 0"
    by (simp add: MMRP_NUMBER_OF_VALUES_MASK_def)
  have lenz: "vect_attr_len 6 0 = 8"
    by (simp add: vect_attr_len_eq)
  from vector_header_fields_extracted [of "0x2000" ?z 0 0 MMRP_ATTRIBUTE_TYPE_MAC 6 0] hz
  have z: "vect_attr_body ?z MMRP_ATTRIBUTE_TYPE_MAC 6 0 0 0
     = ([Item attr_list_tree hf_mmrp_vector_attribute 3 8,
         Item vect_attr_tree hf_mmrp_vector_header 3 2,
         Uint vector_header_tree hf_mmrp_leave_all_event 3 2 1,
         Uint vector_header_tree hf_mmrp_number_of_values 3 2 0,
         Item vect_attr_tree hf_mmrp_first_value 5 6,
         Item first_value_tree hf_mmrp_mac 5 6],
        Inr (8, 11))"
    by (simp add: nz lenz)
  have h: "tvb_get_ntohs leave_all_tvb (3 + 0 + 0) = Inr 0xE001"
    by (simp add: tvb_get_ntohs_def leave_all_tvb_def)
  have n: "(0xE001 :: 16 word) AND MMRP_NUMBER_OF_VALUES_MASK = 1"
    by (simp add: MMRP_NUMBER_OF_VALUES_MASK_def)
  have len: "vect_attr_len 6 1 = 9"
    by (simp add: vect_attr_len_eq)
  have ev: "packed_event_item leave_all_tvb 11 0
              = Uint vect_attr_tree hf_mmrp_three_packed_event 11 1 2"
    by (simp add: packed_event_item_def expand_spec_def leave_all_tvb_def)
  from vector_header_fields_extracted
    [of "0xE001" leave_all_tvb 0 0 MMRP_ATTRIBUTE_TYPE_MAC 6 0] h
  have "vect_attr_body leave_all_tvb MMRP_ATTRIBUTE_TYPE_MAC 6 0 0 0
     = ([Item attr_list_tree hf_mmrp_vector_attribute 3 9,
         Item vect_attr_tree hf_mmrp_vector_header 3 2,
         Uint vector_header_tree hf_mmrp_leave_all_event 3 2 7,
         Uint vector_header_tree hf_mmrp_number_of_values 3 2 1,
         Item vect_attr_tree hf_mmrp_first_value 5 6,
         Item first_value_tree hf_mmrp_mac 5 6,
         Uint vect_attr_tree hf_mmrp_three_packed_event 11 1 2],
        Inr (9, 12))"
    by (simp add: n len ev) (simp add: leave_all_tvb_def)
  with h hz z show ?thesis
    by simp
qed

text \<open>
  C5. The claim: the End Mark item of a Message's Vector Attribute list is added at
  \<open>offset\<close>, the cursor that the expander returned last (line 337, "VectorAttribute
  EndMark"), and that is the position of the 0x0000 that ends the list whenever the Message
  held a MAC or Service Vector Attribute. The Vector Attribute loop ends at the 0x0000 it
  reads at \<open>3 + msg_offset + vect_offset\<close>, and the two positions are not the same in
  \<open>mac7_tvb\<close>, a MAC Message with one Vector Attribute and AttributeLength 7. The Vector
  Attribute takes the ten bytes 3 to 12 and the 0x0000 that ends the list is at 13; the
  expander is started at the fixed \<open>FirstValue + 6\<close>, which is byte 11, the seventh byte
  of the first value; it returns 12, and the End Mark item is added at 12, on the packed
  byte 0x48 and the first byte of the 0x0000.
\<close>

theorem end_mark_position:
  "snd (dissect_mmrp_three_packed_event mac7_tvb (MMRP_MAC_THREE_PACKED_OFFSET + 0 + 0) 1)
     = Inr 12
   \<and> vect_attr_loop mac7_tvb MMRP_ATTRIBUTE_TYPE_MAC 7 0 0 0
     = ([Item attr_list_tree hf_mmrp_vector_attribute 3 10,
         Item vect_attr_tree hf_mmrp_vector_header 3 2,
         Uint vector_header_tree hf_mmrp_leave_all_event 3 2 0,
         Uint vector_header_tree hf_mmrp_number_of_values 3 2 1,
         Item vect_attr_tree hf_mmrp_first_value 5 7,
         Item first_value_tree hf_mmrp_mac 5 6,
         Uint vect_attr_tree hf_mmrp_three_packed_event 11 1 4],
        Inr (10, 12))
   \<and> snd (message_body mac7_tvb 0 0) = Inr (14, 12)
   \<and> last (fst (message_body mac7_tvb 0 0)) = Item attr_list_tree hf_mmrp_end_mark 12 2
   \<and> MMRP_VECTOR_HEADER_OFFSET + 0 + 10 = 13
   \<and> tvb_get_ntohs mac7_tvb 13 = Inr MMRP_END_MARK
   \<and> tvb_get_ntohs mac7_tvb 12 = Inr 0x4800
   \<and> mac7_tvb ! 1 = MMRP_ATTRIBUTE_TYPE_MAC \<and> mac7_tvb ! 2 = 7
   \<and> dissect_mmrp mac7_tvb True =
     ([ColSetStr COL_PROTOCOL ''MRP-MMRP'',
       ColSetStr COL_INFO ''Multiple Mac Registration Protocol'',
       Item tree proto_mmrp 0 (- 1), Item mmrp_tree hf_mmrp_proto_id 0 1,
       Item mmrp_tree hf_mmrp_message 1 (- 1), AppendText msg_tree ''MAC'' 2,
       Item msg_tree hf_mmrp_attribute_type 1 1,
       Item msg_tree hf_mmrp_attribute_length 2 1,
       Item msg_tree hf_mmrp_attribute_list 3 (- 1),
       Item attr_list_tree hf_mmrp_vector_attribute 3 10,
       Item vect_attr_tree hf_mmrp_vector_header 3 2,
       Uint vector_header_tree hf_mmrp_leave_all_event 3 2 0,
       Uint vector_header_tree hf_mmrp_number_of_values 3 2 1,
       Item vect_attr_tree hf_mmrp_first_value 5 7,
       Item first_value_tree hf_mmrp_mac 5 6,
       Uint vect_attr_tree hf_mmrp_three_packed_event 11 1 4,
       Item attr_list_tree hf_mmrp_end_mark 12 2,
       Item mmrp_tree hf_mmrp_end_mark 14 2],
      Inr 17)"
  by code_simp

text \<open>
  C6 (as amended). A Message whose AttributeType is neither 0x01 nor 0x02 is accepted and
  labelled "<Unknown>". Each of its Vector Attributes is sized with the raw
  AttributeLength byte: the Vector Attribute item has length \<open>2 + L + ceil(N/3)\<close> and
  \<open>vect_offset\<close> advances by that much, which steps over the first value and the packed
  events. Only the Vector Attribute and Vector Header items are added: no FirstValue
  item, and \<open>offset\<close> is left as it was.
\<close>

theorem unknown_attribute_type_skipped:
  assumes "t \<noteq> MMRP_ATTRIBUTE_TYPE_SERVICE" and "t \<noteq> MMRP_ATTRIBUTE_TYPE_MAC"
  shows "val_to_str_const (unat t) attribute_type_vals ''<Unknown>'' = ''<Unknown>''
         \<and> (m + 3 \<le> length tvb \<and> tvb ! (1 + m) = t \<longrightarrow>
              (\<exists>rest. fst (message_body tvb m offset)
                        = Item mmrp_tree hf_mmrp_message (1 + m) (- 1)
                          # AppendText msg_tree ''<Unknown>'' (unat t) # rest))
         \<and> (tvb_get_ntohs tvb (3 + m + v) = Inr h \<longrightarrow>
              vect_attr_body tvb t l m v offset
                = ([Item attr_list_tree hf_mmrp_vector_attribute (3 + m + v)
                      (2 + uint l + (uint (h AND MMRP_NUMBER_OF_VALUES_MASK) + 2) div 3),
                    Item vect_attr_tree hf_mmrp_vector_header (3 + m + v) 2,
                    Uint vector_header_tree hf_mmrp_leave_all_event (3 + m + v) 2
                      (unat h div 8192),
                    Uint vector_header_tree hf_mmrp_number_of_values (3 + m + v) 2
                      (unat h mod 8192)],
                   Inr (v + (2 + unat l
                               + (unat (h AND MMRP_NUMBER_OF_VALUES_MASK) + 2) div 3),
                        offset)))
         \<and> snd (vect_attr_loop tvb t l m v offset) \<noteq> Inl UnknownAttributeType
         \<and> snd (message_body tvb m offset) \<noteq> Inl UnknownAttributeType
         \<and> snd (dissect_mmrp tvb tree') \<noteq> Inl UnknownAttributeType"
proof -
  have "unat t \<noteq> unat MMRP_ATTRIBUTE_TYPE_SERVICE" "unat t \<noteq> unat MMRP_ATTRIBUTE_TYPE_MAC"
    using assms by (simp_all add: word_unat_eq_iff)
  then have label: "val_to_str_const (unat t) attribute_type_vals ''<Unknown>'' = ''<Unknown>''"
    by (simp add: val_to_str_const_def attribute_type_vals_def)
  have msg: "\<exists>rest. fst (message_body tvb m offset)
                        = Item mmrp_tree hf_mmrp_message (1 + m) (- 1)
                          # AppendText msg_tree ''<Unknown>'' (unat t) # rest"
    if "m + 3 \<le> length tvb \<and> tvb ! (1 + m) = t"
  proof -
    from that have len: "m + 3 \<le> length tvb" and t: "tvb ! (1 + m) = t"
      by simp_all
    show ?thesis
      unfolding message_body_eq [OF len] message_head_def t label
      by (auto split: prod.splits sum.splits)
  qed
  have body: "vect_attr_body tvb t l m v offset
                = ([Item attr_list_tree hf_mmrp_vector_attribute (3 + m + v)
                      (2 + uint l + (uint (h AND MMRP_NUMBER_OF_VALUES_MASK) + 2) div 3),
                    Item vect_attr_tree hf_mmrp_vector_header (3 + m + v) 2,
                    Uint vector_header_tree hf_mmrp_leave_all_event (3 + m + v) 2
                      (unat h div 8192),
                    Uint vector_header_tree hf_mmrp_number_of_values (3 + m + v) 2
                      (unat h mod 8192)],
                   Inr (v + (2 + unat l
                               + (unat (h AND MMRP_NUMBER_OF_VALUES_MASK) + 2) div 3),
                        offset))"
    if "tvb_get_ntohs tvb (3 + m + v) = Inr h"
    unfolding vect_attr_body_eq [OF that] vect_attr_head_def vect_attr_len_eq
    using assms by simp
  have err: "snd (vect_attr_loop tvb t l m v offset) \<noteq> Inl UnknownAttributeType"
    "snd (message_body tvb m offset) \<noteq> Inl UnknownAttributeType"
    "snd (dissect_mmrp tvb tree') \<noteq> Inl UnknownAttributeType"
    using vect_attr_loop_error [of tvb t l m v offset UnknownAttributeType]
      message_body_error [of tvb m offset UnknownAttributeType]
      dissect_mmrp_error [of tvb tree' UnknownAttributeType]
    by auto
  from label msg body err show ?thesis
    by blast
qed

theorem unknown_attribute_type_skipped_witness:
  "(3 :: 8 word) \<noteq> MMRP_ATTRIBUTE_TYPE_SERVICE \<and> (3 :: 8 word) \<noteq> MMRP_ATTRIBUTE_TYPE_MAC
   \<and> 0 + 3 \<le> length unknown_tvb \<and> unknown_tvb ! (1 + 0) = 3
   \<and> tvb_get_ntohs unknown_tvb (3 + 0 + 0) = Inr 0x2001
   \<and> vect_attr_body unknown_tvb 3 1 0 0 0
       = ([Item attr_list_tree hf_mmrp_vector_attribute 3 4,
           Item vect_attr_tree hf_mmrp_vector_header 3 2,
           Uint vector_header_tree hf_mmrp_leave_all_event 3 2 1,
           Uint vector_header_tree hf_mmrp_number_of_values 3 2 1],
          Inr (4, 0))"
proof -
  have t: "(3 :: 8 word) \<noteq> MMRP_ATTRIBUTE_TYPE_SERVICE" "(3 :: 8 word) \<noteq> MMRP_ATTRIBUTE_TYPE_MAC"
    by (simp_all add: MMRP_ATTRIBUTE_TYPE_SERVICE_def MMRP_ATTRIBUTE_TYPE_MAC_def)
  have b: "0 + 3 \<le> length unknown_tvb" "unknown_tvb ! (1 + 0) = 3"
    "tvb_get_ntohs unknown_tvb (3 + 0 + 0) = Inr 0x2001"
    by (simp_all add: unknown_tvb_def tvb_get_ntohs_def)
  from unknown_attribute_type_skipped [OF t, of 0 unknown_tvb 0 0 "0x2001" 1] t b
  show ?thesis
    by (simp add: MMRP_NUMBER_OF_VALUES_MASK_def)
qed

text \<open>
  C6 as the spec states it fails in its last part: in \<open>unknown_tvb\<close> the Message has
  attribute type 3 and AttributeLength 1, its Vector Attribute takes bytes 3 to 6, and
  the dissection completes without a FirstValue item: nothing is added for byte 5.
\<close>

theorem unknown_attribute_type_counterexample:
  "dissect_mmrp unknown_tvb True =
     ([ColSetStr COL_PROTOCOL ''MRP-MMRP'',
       ColSetStr COL_INFO ''Multiple Mac Registration Protocol'',
       Item tree proto_mmrp 0 (- 1), Item mmrp_tree hf_mmrp_proto_id 0 1,
       Item mmrp_tree hf_mmrp_message 1 (- 1),
       AppendText msg_tree ''<Unknown>'' 3,
       Item msg_tree hf_mmrp_attribute_type 1 1,
       Item msg_tree hf_mmrp_attribute_length 2 1,
       Item msg_tree hf_mmrp_attribute_list 3 (- 1),
       Item attr_list_tree hf_mmrp_vector_attribute 3 4,
       Item vect_attr_tree hf_mmrp_vector_header 3 2,
       Uint vector_header_tree hf_mmrp_leave_all_event 3 2 1,
       Uint vector_header_tree hf_mmrp_number_of_values 3 2 1,
       Item attr_list_tree hf_mmrp_end_mark 0 2,
       Item mmrp_tree hf_mmrp_end_mark 2 2],
      Inr 11)
   \<and> unknown_tvb ! 1 = 3 \<and> unknown_tvb ! 2 = 1
   \<and> Item vect_attr_tree hf_mmrp_first_value 5 1 \<notin> set (fst (dissect_mmrp unknown_tvb True))"
  by code_simp

text \<open>
  C7 (as amended). When a protocol tree is asked for, a read or a field whose bytes are
  not all in the buffer fails with \<open>Truncated\<close>, and the failure ends the loop it occurs in
  and the whole dissection. The result of every level is given by the results below it:
  the expander fails exactly when fewer packed bytes remain than the count needs; a
  Vector Attribute, exactly when its header, the first value of its type or its packed
  bytes are not all there; a loop, when its look-ahead does not fit or a body fails; a
  Message, when its two header bytes are missing, its loop fails or the End Mark does not
  fit; \<open>dissect_mmrp\<close>, when the buffer is empty, the Message loop fails or the last End
  Mark does not fit. No failure is anything but \<open>Truncated\<close>. A dissection that completes
  returns the buffer length, every item it has added names bytes of the buffer, and each
  Vector Attribute it has added ends at least four bytes before the end. Without a tree
  nothing is read: the two columns are set and the buffer length is returned.
\<close>

theorem truncated_read_aborts:
  "(length tvb < offset + 1 \<longrightarrow> tvb_get_guint8 tvb offset = Inl Truncated)
   \<and> (length tvb < offset + 2 \<longrightarrow> tvb_get_ntohs tvb offset = Inl Truncated)
   \<and> snd (dissect_mmrp_three_packed_event tvb offset n) =
       (if (unat n + 2) div 3 \<le> length tvb - offset
        then Inr (offset + (unat n + 2) div 3) else Inl Truncated)
   \<and> snd (vect_attr_body tvb t l m v offset) =
       (case tvb_get_ntohs tvb (3 + m + v) of
          Inl e \<Rightarrow> Inl e
        | Inr h \<Rightarrow>
            if t = MMRP_ATTRIBUTE_TYPE_MAC then
              if 11 + m + v + (unat (h AND MMRP_NUMBER_OF_VALUES_MASK) + 2) div 3
                   \<le> length tvb
              then Inr (v + (2 + unat l + (unat (h AND MMRP_NUMBER_OF_VALUES_MASK) + 2) div 3),
                        11 + m + v + (unat (h AND MMRP_NUMBER_OF_VALUES_MASK) + 2) div 3)
              else Inl Truncated
            else if t = MMRP_ATTRIBUTE_TYPE_SERVICE then
              if 6 + m + v + (unat (h AND MMRP_NUMBER_OF_VALUES_MASK) + 2) div 3
                   \<le> length tvb
              then Inr (v + (2 + unat l + (unat (h AND MMRP_NUMBER_OF_VALUES_MASK) + 2) div 3),
                        6 + m + v + (unat (h AND MMRP_NUMBER_OF_VALUES_MASK) + 2) div 3)
              else Inl Truncated
            else Inr (v + (2 + unat l + (unat (h AND MMRP_NUMBER_OF_VALUES_MASK) + 2) div 3),
                      offset))
   \<and> snd (vect_attr_loop tvb t l m v offset) =
       (case tvb_get_ntohs tvb (3 + m + v) of
          Inl e \<Rightarrow> Inl e
        | Inr h \<Rightarrow>
            if h = MMRP_END_MARK then Inr (v, offset)
            else (case snd (vect_attr_body tvb t l m v offset) of
                    Inl e \<Rightarrow> Inl e
                  | Inr (v1, o1) \<Rightarrow> snd (vect_attr_loop tvb t l m v1 o1)))
   \<and> snd (message_body tvb m offset) =
       (if m + 3 \<le> length tvb then
          case snd (vect_attr_loop tvb (tvb ! (1 + m)) (tvb ! (2 + m)) m 0 offset) of
            Inl e \<Rightarrow> Inl e
          | Inr (v1, o1) \<Rightarrow>
              if o1 + 2 \<le> length tvb then Inr (m + (v1 + 2 + 2), o1) else Inl Truncated
        else Inl Truncated)
   \<and> snd (message_loop tvb m offset) =
       (case tvb_get_ntohs tvb (1 + m) of
          Inl e \<Rightarrow> Inl e
        | Inr h \<Rightarrow>
            if h = MMRP_END_MARK then Inr (m, offset)
            else (case snd (message_body tvb m offset) of
                    Inl e \<Rightarrow> Inl e
                  | Inr (m1, o1) \<Rightarrow> snd (message_loop tvb m1 o1)))
   \<and> snd (dissect_mmrp tvb True) =
       (if tvb = [] then Inl Truncated
        else
          case snd (message_loop tvb 0 0) of
            Inl e \<Rightarrow> Inl e
          | Inr (m1, o1) \<Rightarrow>
              if o1 + 4 \<le> length tvb then Inr (length tvb) else Inl Truncated)
   \<and> (\<forall>e. snd (dissect_mmrp tvb tree') = Inl e \<longrightarrow> e = Truncated)
   \<and> (\<forall>r. snd (dissect_mmrp tvb True) = Inr r \<longrightarrow>
         r = length tvb
         \<and> (\<forall>it \<in> set (fst (dissect_mmrp tvb True)). item_in_buffer tvb it)
         \<and> (\<forall>start len.
               Item attr_list_tree hf_mmrp_vector_attribute start len
                 \<in> set (fst (dissect_mmrp tvb True)) \<longrightarrow>
               start + nat len + 4 \<le> length tvb))
   \<and> dissect_mmrp tvb False
       = ([ColSetStr COL_PROTOCOL ''MRP-MMRP'',
           ColSetStr COL_INFO ''Multiple Mac Registration Protocol''],
          Inr (length tvb))"
proof -
  have rd: "length tvb < offset + 1 \<longrightarrow> tvb_get_guint8 tvb offset = Inl Truncated"
    "length tvb < offset + 2 \<longrightarrow> tvb_get_ntohs tvb offset = Inl Truncated"
    by (simp_all add: tvb_get_guint8_def tvb_get_ntohs_def)
  have ex: "snd (dissect_mmrp_three_packed_event tvb offset n) =
       (if (unat n + 2) div 3 \<le> length tvb - offset
        then Inr (offset + (unat n + 2) div 3) else Inl Truncated)"
    by (simp add: dissect_mmrp_three_packed_event_eq)
  have er: "\<forall>e. snd (dissect_mmrp tvb tree') = Inl e \<longrightarrow> e = Truncated"
    using dissect_mmrp_error [of tvb tree'] by blast
  have ok: "r = length tvb
         \<and> (\<forall>it \<in> set (fst (dissect_mmrp tvb True)). item_in_buffer tvb it)
         \<and> (\<forall>start len.
               Item attr_list_tree hf_mmrp_vector_attribute start len
                 \<in> set (fst (dissect_mmrp tvb True)) \<longrightarrow>
               start + nat len + 4 \<le> length tvb)"
    if r: "snd (dissect_mmrp tvb True) = Inr r" for r
  proof -
    from r have "r = length tvb"
      unfolding dissect_mmrp_snd by (auto split: if_splits sum.splits prod.splits)
    moreover note dissect_mmrp_in_buffer [OF r]
    moreover have "start + nat len + 4 \<le> length tvb"
      if "Item attr_list_tree hf_mmrp_vector_attribute start len
            \<in> set (fst (dissect_mmrp tvb True))" for start len
      using r that by (rule dissect_mmrp_extent)
    ultimately show ?thesis
      by blast
  qed
  have nt: "dissect_mmrp tvb False
       = ([ColSetStr COL_PROTOCOL ''MRP-MMRP'',
           ColSetStr COL_INFO ''Multiple Mac Registration Protocol''],
          Inr (length tvb))"
    by (simp add: dissect_mmrp_eq dissect_head_def)
  note lv = vect_attr_body_snd [of tvb t l m v offset]
    vect_attr_loop_snd [of tvb t l m v offset]
    message_body_snd [of tvb m offset] message_loop_snd [of tvb m offset]
    dissect_mmrp_snd [of tvb]
  show ?thesis
    using rd ex lv er ok nt by blast
qed

theorem truncated_read_aborts_witness:
  "length cut_tvb < 12 + 1 \<and> tvb_get_guint8 cut_tvb 12 = Inl Truncated
   \<and> length cut_tvb < 11 + 2 \<and> tvb_get_ntohs cut_tvb 11 = Inl Truncated
   \<and> tvb_get_ntohs cut_tvb (3 + 0 + 0) = Inr 4
   \<and> snd (dissect_mmrp_three_packed_event cut_tvb 11 4) = Inl Truncated
   \<and> snd (vect_attr_body cut_tvb MMRP_ATTRIBUTE_TYPE_MAC 6 0 0 0) = Inl Truncated
   \<and> snd (vect_attr_loop cut_tvb MMRP_ATTRIBUTE_TYPE_MAC 6 0 0 0) = Inl Truncated
   \<and> snd (message_body cut_tvb 0 0) = Inl Truncated
   \<and> snd (message_loop cut_tvb 0 0) = Inl Truncated
   \<and> snd (dissect_mmrp cut_tvb True) = Inl Truncated
   \<and> snd (dissect_mmrp short_tvb True) = Inl Truncated
   \<and> snd (dissect_mmrp zeros_tvb True) = Inl Truncated
   \<and> snd (dissect_mmrp mac6_tvb True) = Inr 17 \<and> length mac6_tvb = 17
   \<and> Item attr_list_tree hf_mmrp_vector_attribute 3 10 \<in> set (fst (dissect_mmrp mac6_tvb True))
   \<and> item_in_buffer mac6_tvb (Item attr_list_tree hf_mmrp_vector_attribute 3 10)
   \<and> 3 + nat 10 + 4 \<le> length mac6_tvb"
proof -
  have k: "(0x0206 :: 16 word) \<noteq> MMRP_END_MARK" "(4 :: 16 word) \<noteq> MMRP_END_MARK"
    "(0 :: 16 word) = MMRP_END_MARK"
    "unat ((4 :: 16 word) AND MMRP_NUMBER_OF_VALUES_MASK) = 4"
    by (simp_all add: MMRP_END_MARK_def MMRP_NUMBER_OF_VALUES_MASK_def)
  have c: "length cut_tvb = 12"
    "tvb_get_ntohs cut_tvb (3 + 0 + 0) = Inr 4"
    "tvb_get_ntohs cut_tvb (1 + 0) = Inr 0x0206"
    "cut_tvb ! (1 + 0) = MMRP_ATTRIBUTE_TYPE_MAC" "cut_tvb ! (2 + 0) = 6" "cut_tvb \<noteq> []"
    by (simp_all add: cut_tvb_def tvb_get_ntohs_def MMRP_ATTRIBUTE_TYPE_MAC_def)
  have s: "length short_tvb = 4"
    "tvb_get_ntohs short_tvb (3 + 0 + 0) = Inl Truncated"
    "tvb_get_ntohs short_tvb (1 + 0) = Inr 0x0206"
    "short_tvb ! (1 + 0) = MMRP_ATTRIBUTE_TYPE_MAC" "short_tvb ! (2 + 0) = 6"
    "short_tvb \<noteq> []"
    by (simp_all add: short_tvb_def tvb_get_ntohs_def MMRP_ATTRIBUTE_TYPE_MAC_def)
  have z: "length zeros_tvb = 3" "tvb_get_ntohs zeros_tvb (1 + 0) = Inr 0" "zeros_tvb \<noteq> []"
    by (simp_all add: zeros_tvb_def tvb_get_ntohs_def)
  have g: "snd (dissect_mmrp mac6_tvb True) = Inr 17"
    "Item attr_list_tree hf_mmrp_vector_attribute 3 10
       \<in> set (fst (dissect_mmrp mac6_tvb True))"
    by code_simp+
  note at12 = truncated_read_aborts [of cut_tvb 12 4 MMRP_ATTRIBUTE_TYPE_MAC 6 0 0 True]
  note at11 = truncated_read_aborts [of cut_tvb 11 4 MMRP_ATTRIBUTE_TYPE_MAC 6 0 0 True]
  note cut = truncated_read_aborts [of cut_tvb 0 4 MMRP_ATTRIBUTE_TYPE_MAC 6 0 0 True]
  note short = truncated_read_aborts [of short_tvb 0 4 MMRP_ATTRIBUTE_TYPE_MAC 6 0 0 True]
  note zeros = truncated_read_aborts [of zeros_tvb 0 4 MMRP_ATTRIBUTE_TYPE_MAC 6 0 0 True]
  note good = truncated_read_aborts [of mac6_tvb 0 4 MMRP_ATTRIBUTE_TYPE_MAC 6 0 0 True]
  have r1: "tvb_get_guint8 cut_tvb 12 = Inl Truncated"
    using at12 [THEN conjunct1] c(1) by simp
  have r2: "tvb_get_ntohs cut_tvb 11 = Inl Truncated"
    using at11 [THEN conjunct2, THEN conjunct1] c(1) by simp
  have r3: "snd (dissect_mmrp_three_packed_event cut_tvb 11 4) = Inl Truncated"
    using at11 [THEN conjunct2, THEN conjunct2, THEN conjunct1] c(1) by simp
  note lv = conjunct2 [THEN conjunct2, THEN conjunct2]
  have c1: "snd (vect_attr_body cut_tvb MMRP_ATTRIBUTE_TYPE_MAC 6 0 0 0) = Inl Truncated"
    using cut [THEN lv, THEN conjunct1] c k by simp
  have c2: "snd (vect_attr_loop cut_tvb MMRP_ATTRIBUTE_TYPE_MAC 6 0 0 0) = Inl Truncated"
    using cut [THEN lv, THEN conjunct2, THEN conjunct1] c k c1 by simp
  have c3: "snd (message_body cut_tvb 0 0) = Inl Truncated"
    using cut [THEN lv, THEN conjunct2, THEN conjunct2, THEN conjunct1] c c2 by simp
  have c4: "snd (message_loop cut_tvb 0 0) = Inl Truncated"
    using cut [THEN lv, THEN conjunct2, THEN conjunct2, THEN conjunct2, THEN conjunct1]
      c k c3 by simp
  have c5: "snd (dissect_mmrp cut_tvb True) = Inl Truncated"
    using cut [THEN lv, THEN lv, THEN conjunct2, THEN conjunct1] c c4 by simp
  have s2: "snd (vect_attr_loop short_tvb MMRP_ATTRIBUTE_TYPE_MAC 6 0 0 0) = Inl Truncated"
    using short [THEN lv, THEN conjunct2, THEN conjunct1] s by simp
  have s3: "snd (message_body short_tvb 0 0) = Inl Truncated"
    using short [THEN lv, THEN conjunct2, THEN conjunct2, THEN conjunct1] s s2 by simp
  have s4: "snd (message_loop short_tvb 0 0) = Inl Truncated"
    using short [THEN lv, THEN conjunct2, THEN conjunct2, THEN conjunct2, THEN conjunct1]
      s k s3 by simp
  have s5: "snd (dissect_mmrp short_tvb True) = Inl Truncated"
    using short [THEN lv, THEN lv, THEN conjunct2, THEN conjunct1] s s4 by simp
  have z4: "snd (message_loop zeros_tvb 0 0) = Inr (0, 0)"
    using zeros [THEN lv, THEN conjunct2, THEN conjunct2, THEN conjunct2, THEN conjunct1]
      z k by simp
  have z5: "snd (dissect_mmrp zeros_tvb True) = Inl Truncated"
    using zeros [THEN lv, THEN lv, THEN conjunct2, THEN conjunct1] z z4 by simp
  from good [THEN lv, THEN lv, THEN lv, THEN conjunct1] g
  have g1: "17 = length mac6_tvb"
    "item_in_buffer mac6_tvb (Item attr_list_tree hf_mmrp_vector_attribute 3 10)"
    "3 + nat 10 + 4 \<le> length mac6_tvb"
    by blast+
  from c r1 r2 r3 c1 c2 c3 c4 c5 s5 z5 g g1 show ?thesis
    by simp
qed

text \<open>
  C7 as the spec states it fails when no protocol tree is asked for (\<open>if (tree)\<close>, line
  220). \<open>cut_tvb\<close> is shorter than its header fields imply: its Vector Header announces
  four values, two packed bytes, and only one is left, so the dissection with a tree fails
  with \<open>Truncated\<close>. Without a tree the same buffer is reported as dissected, all twelve
  bytes of it.
\<close>

theorem truncated_read_aborts_counterexample:
  "dissect_mmrp cut_tvb False
     = ([ColSetStr COL_PROTOCOL ''MRP-MMRP'',
         ColSetStr COL_INFO ''Multiple Mac Registration Protocol''],
        Inr 12)
   \<and> length cut_tvb = 12
   \<and> tvb_get_ntohs cut_tvb 3 = Inr 4
   \<and> snd (dissect_mmrp_three_packed_event cut_tvb 11 4) = Inl Truncated
   \<and> snd (dissect_mmrp cut_tvb True) = Inl Truncated"
  by code_simp

text \<open>
  C8. Every loop of the dissector moves its cursor forward, and the dissection of a
  buffer is bounded by its length. An iteration of the packed-event loop whose read
  succeeds adds at least one item, raises the counter and goes on at \<open>offset + 1\<close>. An
  iteration of the Vector Attribute loop advances \<open>vect_offset\<close> by \<open>vect_attr_len\<close>, which is
  at least 2; an iteration of the Message loop advances \<open>msg_offset\<close> by
  \<open>vect_offset + 4\<close>, at least 4, and stays inside the buffer. (The three loops are total
  functions: their definitions come with termination proofs on these cursors.) Since
  every iteration that gets past its read adds an item, the number of iterations is
  bounded by the number of items, which is at most \<open>3 * length + 10\<close> for every buffer,
  whether the dissection completes or fails.
\<close>

theorem decode_terminates_linear:
  "(counter < unat n \<and> tvb_get_guint8 tvb offset = Inr b \<longrightarrow>
      (\<exists>items counter'.
         three_packed_add n counter offset (three_packed_event b) = (items, Inr counter')
         \<and> items \<noteq> [] \<and> counter < counter'
         \<and> three_packed_loop tvb n counter offset
             = (items @ fst (three_packed_loop tvb n counter' (offset + 1)),
                snd (three_packed_loop tvb n counter' (offset + 1)))))
   \<and> (tvb_get_ntohs tvb (3 + m + v) = Inr h
        \<and> snd (vect_attr_body tvb t l m v offset) = Inr (v1, o1) \<longrightarrow>
        v1 = v + nat (vect_attr_len l (h AND MMRP_NUMBER_OF_VALUES_MASK))
        \<and> 2 \<le> vect_attr_len l (h AND MMRP_NUMBER_OF_VALUES_MASK)
        \<and> v < v1)
   \<and> (snd (message_body tvb m offset) = Inr (m1, o2) \<longrightarrow>
        (\<exists>vect_offset. m1 = m + (vect_offset + 2 + 2)) \<and> m + 4 \<le> m1 \<and> m1 < length tvb)
   \<and> length (fst (dissect_mmrp tvb tree')) \<le> 3 * length tvb + 10"
proof -
  have packed: "\<exists>items counter'.
         three_packed_add n counter offset (three_packed_event b) = (items, Inr counter')
         \<and> items \<noteq> [] \<and> counter < counter'
         \<and> three_packed_loop tvb n counter offset
             = (items @ fst (three_packed_loop tvb n counter' (offset + 1)),
                snd (three_packed_loop tvb n counter' (offset + 1)))"
    if "counter < unat n \<and> tvb_get_guint8 tvb offset = Inr b"
  proof -
    from that have c: "counter < unat n" and rd: "tvb_get_guint8 tvb offset = Inr b"
      by simp_all
    from rd have b: "b = tvb ! offset"
      by (simp add: tvb_get_guint8_def split: if_splits)
    let ?items = "map (packed_event_item tvb offset) [0..<min 3 (unat n - counter)]"
    let ?c' = "counter + min 3 (unat n - counter)"
    have add: "three_packed_add n counter offset (three_packed_event b) = (?items, Inr ?c')"
      unfolding b by (rule three_packed_add_eq [OF c])
    from c have "?items \<noteq> []" "counter < ?c'"
      by simp_all
    moreover have "three_packed_loop tvb n counter offset
             = (?items @ fst (three_packed_loop tvb n ?c' (offset + 1)),
                snd (three_packed_loop tvb n ?c' (offset + 1)))"
      by (subst three_packed_loop.simps) (simp add: c rd add split: prod.splits)
    ultimately show ?thesis
      using add by blast
  qed
  have vect: "v1 = v + nat (vect_attr_len l (h AND MMRP_NUMBER_OF_VALUES_MASK))
        \<and> 2 \<le> vect_attr_len l (h AND MMRP_NUMBER_OF_VALUES_MASK)
        \<and> v < v1"
    if "tvb_get_ntohs tvb (3 + m + v) = Inr h
        \<and> snd (vect_attr_body tvb t l m v offset) = Inr (v1, o1)"
  proof -
    from that have peek: "tvb_get_ntohs tvb (3 + m + v) = Inr h"
      and body: "snd (vect_attr_body tvb t l m v offset) = Inr (v1, o1)"
      by simp_all
    from vect_attr_body_result(1) [OF peek body] vect_attr_len_ge2
    show ?thesis
      by (simp add: nat_vect_attr_len)
  qed
  have msg: "(\<exists>vect_offset. m1 = m + (vect_offset + 2 + 2)) \<and> m + 4 \<le> m1 \<and> m1 < length tvb"
    if "snd (message_body tvb m offset) = Inr (m1, o2)"
  proof -
    from that have body: "message_body tvb m offset
                            = (fst (message_body tvb m offset), Inr (m1, o2))"
      by (cases "message_body tvb m offset") simp
    from message_body_advance [OF body] have "m + 4 \<le> m1" .
    then have "m1 = m + ((m1 - m - 4) + 2 + 2)"
      by simp
    with \<open>m + 4 \<le> m1\<close> message_body_items_success [OF body] show ?thesis
      by blast
  qed
  from packed vect msg dissect_mmrp_items [of tvb tree'] show ?thesis
    by blast
qed

theorem decode_terminates_linear_witness:
  "0 < unat (4 :: 16 word) \<and> tvb_get_guint8 mac6_tvb 11 = Inr 0x48
   \<and> tvb_get_ntohs mac6_tvb (3 + 0 + 0) = Inr 4
   \<and> snd (vect_attr_body mac6_tvb 2 6 0 0 11) = Inr (10, 13)
   \<and> snd (message_body mac6_tvb 0 11) = Inr (14, 13)
   \<and> 10 = 0 + nat (vect_attr_len 6 (4 AND MMRP_NUMBER_OF_VALUES_MASK))
   \<and> 14 < length mac6_tvb
   \<and> length (fst (dissect_mmrp mac6_tvb True)) \<le> 3 * length mac6_tvb + 10"
proof -
  have h: "0 < unat (4 :: 16 word) \<and> tvb_get_guint8 mac6_tvb 11 = Inr 0x48"
    "tvb_get_ntohs mac6_tvb (3 + 0 + 0) = Inr 4"
    by (simp_all add: mac6_tvb_def tvb_get_guint8_def tvb_get_ntohs_def)
  have b: "snd (vect_attr_body mac6_tvb 2 6 0 0 11) = Inr (10, 13)"
    "snd (message_body mac6_tvb 0 11) = Inr (14, 13)"
    by code_simp+
  from decode_terminates_linear [of 0 4 mac6_tvb 11 "0x48" 0 0 4 2 6 10 13 14 13 True] h b
  show ?thesis
    by blast
qed

text \<open>
  C9. In a MAC or Service Message the packed-event run is read from a fixed place, the
  FirstValue position plus 6 (MAC) or plus 1 (Service), whatever the AttributeLength byte
  is, while \<open>vect_offset\<close> advances by \<open>vect_attr_len\<close>, which uses the AttributeLength
  byte. So the offset the expander returns is the position of the next Vector Attribute
  exactly when AttributeLength is 6 in a MAC Message or 1 in a Service Message.
\<close>

theorem packed_run_start_fixed:
  assumes "tvb_get_ntohs tvb (3 + m + v) = Inr h"
    and "snd (vect_attr_body tvb t l m v offset) = Inr (v', offset')"
    and "t = MMRP_ATTRIBUTE_TYPE_MAC \<or> t = MMRP_ATTRIBUTE_TYPE_SERVICE"
  shows "snd (dissect_mmrp_three_packed_event tvb
                (MMRP_FIRST_VALUE_GROUP_OFFSET + m + v
                   + (if t = MMRP_ATTRIBUTE_TYPE_MAC then 6 else 1))
                (h AND MMRP_NUMBER_OF_VALUES_MASK)) = Inr offset'
         \<and> offset' = MMRP_FIRST_VALUE_GROUP_OFFSET + m + v
                        + (if t = MMRP_ATTRIBUTE_TYPE_MAC then 6 else 1)
                        + (unat (h AND MMRP_NUMBER_OF_VALUES_MASK) + 2) div 3
         \<and> v' = v + nat (vect_attr_len l (h AND MMRP_NUMBER_OF_VALUES_MASK))
         \<and> v' = v + (2 + unat l + (unat (h AND MMRP_NUMBER_OF_VALUES_MASK) + 2) div 3)
         \<and> (offset' = MMRP_VECTOR_HEADER_OFFSET + m + v'
              \<longleftrightarrow> unat l = (if t = MMRP_ATTRIBUTE_TYPE_MAC then 6 else 1))"
proof -
  let ?n = "h AND MMRP_NUMBER_OF_VALUES_MASK"
  have ne: "MMRP_ATTRIBUTE_TYPE_SERVICE \<noteq> MMRP_ATTRIBUTE_TYPE_MAC"
    by (simp add: MMRP_ATTRIBUTE_TYPE_SERVICE_def MMRP_ATTRIBUTE_TYPE_MAC_def)
  from assms(3) show ?thesis
  proof
    assume t: "t = MMRP_ATTRIBUTE_TYPE_MAC"
    from assms(2) have
      "(case snd (dissect_mmrp_three_packed_event tvb (11 + m + v) ?n) of
          Inl e \<Rightarrow> Inl e
        | Inr offset' \<Rightarrow> Inr (v + (2 + unat l + (unat ?n + 2) div 3), offset'))
       = Inr (v', offset')"
      by (simp add: vect_attr_body_eq [OF assms(1)] t split: if_splits)
    then have r: "snd (dissect_mmrp_three_packed_event tvb (11 + m + v) ?n) = Inr offset'"
      and v': "v' = v + (2 + unat l + (unat ?n + 2) div 3)"
      by (auto split: sum.splits)
    from r have o: "offset' = 11 + m + v + (unat ?n + 2) div 3"
      by (simp add: dissect_mmrp_three_packed_event_eq split: if_splits)
    have off: "MMRP_FIRST_VALUE_GROUP_OFFSET + m + v + 6 = 11 + m + v"
      by (simp add: mmrp_offset_values)
    have k: "(if t = MMRP_ATTRIBUTE_TYPE_MAC then 6 else 1) = (6 :: nat)"
      using t by simp
    have c1: "snd (dissect_mmrp_three_packed_event tvb
                (MMRP_FIRST_VALUE_GROUP_OFFSET + m + v + 6) ?n) = Inr offset'"
      unfolding off by (rule r)
    have c2: "offset' = MMRP_FIRST_VALUE_GROUP_OFFSET + m + v + 6 + (unat ?n + 2) div 3"
      unfolding off by (rule o)
    have c3: "v' = v + nat (vect_attr_len l ?n)"
      unfolding nat_vect_attr_len by (rule v')
    have c5: "offset' = MMRP_VECTOR_HEADER_OFFSET + m + v' \<longleftrightarrow> unat l = 6"
      unfolding o v' mmrp_offset_values by linarith
    show ?thesis
      unfolding k using c1 c2 c3 v' c5 by blast
  next
    assume t: "t = MMRP_ATTRIBUTE_TYPE_SERVICE"
    from assms(2) have
      "(case snd (dissect_mmrp_three_packed_event tvb (6 + m + v) ?n) of
          Inl e \<Rightarrow> Inl e
        | Inr offset' \<Rightarrow> Inr (v + (2 + unat l + (unat ?n + 2) div 3), offset'))
       = Inr (v', offset')"
      by (simp add: vect_attr_body_eq [OF assms(1)] t ne split: if_splits)
    then have r: "snd (dissect_mmrp_three_packed_event tvb (6 + m + v) ?n) = Inr offset'"
      and v': "v' = v + (2 + unat l + (unat ?n + 2) div 3)"
      by (auto split: sum.splits)
    from r have o: "offset' = 6 + m + v + (unat ?n + 2) div 3"
      by (simp add: dissect_mmrp_three_packed_event_eq split: if_splits)
    have off: "MMRP_FIRST_VALUE_GROUP_OFFSET + m + v + 1 = 6 + m + v"
      by (simp add: mmrp_offset_values)
    have k: "(if t = MMRP_ATTRIBUTE_TYPE_MAC then 6 else 1) = (1 :: nat)"
      using t ne by simp
    have c1: "snd (dissect_mmrp_three_packed_event tvb
                (MMRP_FIRST_VALUE_GROUP_OFFSET + m + v + 1) ?n) = Inr offset'"
      unfolding off by (rule r)
    have c2: "offset' = MMRP_FIRST_VALUE_GROUP_OFFSET + m + v + 1 + (unat ?n + 2) div 3"
      unfolding off by (rule o)
    have c3: "v' = v + nat (vect_attr_len l ?n)"
      unfolding nat_vect_attr_len by (rule v')
    have c5: "offset' = MMRP_VECTOR_HEADER_OFFSET + m + v' \<longleftrightarrow> unat l = 1"
      unfolding o v' mmrp_offset_values by linarith
    show ?thesis
      unfolding k using c1 c2 c3 v' c5 by blast
  qed
qed

theorem packed_run_start_fixed_witness:
  "tvb_get_ntohs mac7_tvb (3 + 0 + 0) = Inr 1
   \<and> snd (vect_attr_body mac7_tvb MMRP_ATTRIBUTE_TYPE_MAC 7 0 0 0) = Inr (10, 12)
   \<and> snd (dissect_mmrp_three_packed_event mac7_tvb 11 1) = Inr 12
   \<and> (12 = MMRP_VECTOR_HEADER_OFFSET + 0 + 10 \<longleftrightarrow> unat (7 :: 8 word) = 6)"
proof -
  have h: "tvb_get_ntohs mac7_tvb (3 + 0 + 0) = Inr 1"
    by (simp add: tvb_get_ntohs_def mac7_tvb_def)
  have b: "snd (vect_attr_body mac7_tvb MMRP_ATTRIBUTE_TYPE_MAC 7 0 0 0) = Inr (10, 12)"
    by code_simp
  from packed_run_start_fixed [OF h b] h b show ?thesis
    by (simp add: mmrp_offset_values MMRP_NUMBER_OF_VALUES_MASK_def)
qed

text \<open>
  C10. The expander neither rejects nor clamps a packed byte. For every byte \<open>v\<close> from 0 to
  255 the second and third digits are at most 5 and the first, \<open>v / 36\<close>, is at most 7;
  the first digit of every byte read is added as it is, also when it exceeds 5. The
  expander never ends with \<open>MalformedPackedByte\<close>: it fails only with \<open>Truncated\<close>, and only
  when fewer bytes remain than the count needs.
\<close>

theorem three_packed_event_not_clamped:
  "(case three_packed_event v of
      (e0, e1, e2) \<Rightarrow>
        unat e0 = unat v div 36 \<and> unat e0 \<le> 7 \<and> unat e1 \<le> 5 \<and> unat e2 \<le> 5)
   \<and> (\<forall>j. 3 * j < min (unat n) (3 * (length tvb - offset)) \<longrightarrow>
          fst (dissect_mmrp_three_packed_event tvb offset n) ! (3 * j)
            = Uint vect_attr_tree hf_mmrp_three_packed_event (offset + j) 1
                (unat (tvb ! (offset + j)) div 36))
   \<and> snd (dissect_mmrp_three_packed_event tvb offset n) \<noteq> Inl MalformedPackedByte
   \<and> (snd (dissect_mmrp_three_packed_event tvb offset n) = Inl Truncated
        \<longleftrightarrow> length tvb - offset < (unat n + 2) div 3)"
proof -
  obtain e0 e1 e2 where ev: "three_packed_event v = (e0, e1, e2)"
    by (cases "three_packed_event v")
  note d = three_packed_event_unat [OF ev]
  have "unat v < 2 ^ LENGTH(8)"
    by (rule unsigned_less)
  then have "unat v div 36 \<le> 7"
    by simp
  then have digits: "unat e0 = unat v div 36 \<and> unat e0 \<le> 7 \<and> unat e1 \<le> 5 \<and> unat e2 \<le> 5"
    unfolding d by (simp add: less_Suc_eq_le [symmetric])
  have first: "fst (dissect_mmrp_three_packed_event tvb offset n) ! (3 * j)
            = Uint vect_attr_tree hf_mmrp_three_packed_event (offset + j) 1
                (unat (tvb ! (offset + j)) div 36)"
    if "3 * j < min (unat n) (3 * (length tvb - offset))" for j
    using that
    by (simp add: dissect_mmrp_three_packed_event_eq packed_event_item_def expand_spec_def)
  have err: "snd (dissect_mmrp_three_packed_event tvb offset n) \<noteq> Inl MalformedPackedByte"
    "snd (dissect_mmrp_three_packed_event tvb offset n) = Inl Truncated
       \<longleftrightarrow> length tvb - offset < (unat n + 2) div 3"
    by (simp_all add: dissect_mmrp_three_packed_event_eq not_le)
  show ?thesis
    using digits first err by (simp add: ev)
qed

theorem three_packed_event_not_clamped_witness:
  "3 * 0 < min (unat (1 :: 16 word)) (3 * (length [0xFF :: 8 word] - 0))
   \<and> fst (dissect_mmrp_three_packed_event [0xFF] 0 1) ! (3 * 0)
       = Uint vect_attr_tree hf_mmrp_three_packed_event 0 1 7
   \<and> three_packed_event 0xFF = (7, 0, 3)"
  using three_packed_event_not_clamped [of 255 1 "[0xFF]" 0]
  by (simp add: three_packed_event_def)

end
